theory Spec2Isabelle
  imports Main
begin

section \<open>JavaScript strings\<close>

text \<open>
  A JavaScript string is a sequence of UTF-16 code units; \<open>length\<close>, indexing,
  \<open>indexOf\<close> and \<open>slice\<close> all count code units. A code unit is modelled as a
  natural number, so the bullet and box-drawing glyphs of the renderer are one element
  each, as they are in the source.
\<close>

type_synonym jsstring = "nat list"

definition ustr :: "string \<Rightarrow> jsstring" where
  "ustr s = map of_char s"

definition c_nl :: nat where "c_nl = 10"
definition c_cr :: nat where "c_cr = 13"
definition c_esc :: nat where "c_esc = 27"
definition c_space :: nat where "c_space = 32"
definition c_hash :: nat where "c_hash = 35"
definition c_lparen :: nat where "c_lparen = 40"
definition c_rparen :: nat where "c_rparen = 41"
definition c_star :: nat where "c_star = 42"
definition c_dash :: nat where "c_dash = 45"
definition c_dot :: nat where "c_dot = 46"
definition c_zero :: nat where "c_zero = 48"
definition c_nine :: nat where "c_nine = 57"
definition c_lbracket :: nat where "c_lbracket = 91"
definition c_backslash :: nat where "c_backslash = 92"
definition c_rbracket :: nat where "c_rbracket = 93"
definition c_underscore :: nat where "c_underscore = 95"
definition c_backtick :: nat where "c_backtick = 96"
definition c_tilde :: nat where "c_tilde = 126"
definition c_bullet :: nat where "c_bullet = 8226"
definition c_box :: nat where "c_box = 9472"

text \<open>\<open>s.indexOf(c, from)\<close> for a one-character needle; \<open>None\<close> is the source's \<open>-1\<close>.\<close>

fun find_first :: "nat \<Rightarrow> jsstring \<Rightarrow> nat option" where
  "find_first c [] = None"
| "find_first c (x # xs) = (if x = c then Some 0 else map_option Suc (find_first c xs))"

definition indexOf :: "jsstring \<Rightarrow> nat \<Rightarrow> nat \<Rightarrow> nat option" where
  "indexOf s c from = map_option (\<lambda>k. from + k) (find_first c (drop from s))"

text \<open>\<open>s.slice(a, b)\<close> and \<open>s.slice(a)\<close> for non-negative arguments.\<close>

definition slice :: "jsstring \<Rightarrow> nat \<Rightarrow> nat \<Rightarrow> jsstring" where
  "slice s a b = take (b - a) (drop a s)"

text \<open>\<open>s[i]\<close>: \<open>None\<close> is the source's \<open>undefined\<close>, which equals no character.\<close>

definition charAt :: "jsstring \<Rightarrow> nat \<Rightarrow> nat option" where
  "charAt s i = (if i < length s then Some (s ! i) else None)"

section \<open>Style codes\<close>

definition sgr :: "string \<Rightarrow> jsstring" where
  "sgr body = c_esc # ustr body"

definition RESET :: jsstring where "RESET = sgr ''[0m''"
definition BOLD :: jsstring where "BOLD = sgr ''[1m''"
definition DIM :: jsstring where "DIM = sgr ''[2m''"
definition ITALIC :: jsstring where "ITALIC = sgr ''[3m''"
definition CYAN :: jsstring where "CYAN = sgr ''[36m''"
definition BRIGHT_MAGENTA :: jsstring where "BRIGHT_MAGENTA = sgr ''[95m''"
definition UNDERLINE :: jsstring where "UNDERLINE = sgr ''[4m''"
definition NO_UNDERLINE :: jsstring where "NO_UNDERLINE = sgr ''[24m''"
definition NO_BOLD :: jsstring where "NO_BOLD = sgr ''[22m''"
definition NO_ITALIC :: jsstring where "NO_ITALIC = sgr ''[23m''"

text \<open>
  \<open>process.stdout.columns || 80\<close>: the column count is a parameter of the model, with
  \<open>0\<close> standing for an undefined (or zero) value.
\<close>

definition term_cols :: "nat \<Rightarrow> nat" where
  "term_cols columns = (if columns = 0 then 80 else columns)"

section \<open>The streaming markdown renderer\<close>

record renderer =
  pending :: jsstring
  bold :: bool
  italic :: bool
  inCode :: bool
  inCodeBlock :: bool
  codeBlockTicks :: nat
  atLineStart :: bool
  lineContent :: jsstring

definition new_renderer :: renderer where
  "new_renderer = \<lparr>pending = [], bold = False, italic = False, inCode = False,
     inCodeBlock = False, codeBlockTicks = 0, atLineStart = True, lineContent = []\<rparr>"

text \<open>
  \<open>matchFence\<close>: the length of the run of the fence character at position \<open>i\<close>, or 0
  when the character is no fence character or the run is shorter than 3.
\<close>

definition matchFence :: "jsstring \<Rightarrow> nat \<Rightarrow> nat" where
  "matchFence input i =
     (case charAt input i of
        None \<Rightarrow> 0
      | Some ch \<Rightarrow>
          if ch \<noteq> c_backtick \<and> ch \<noteq> c_tilde then 0
          else (let count = length (takeWhile (\<lambda>x. x = ch) (drop i input))
                in if 3 \<le> count then count else 0))"

text \<open>
  One iteration of the \<open>while (i < input.length)\<close> loop of \<open>push\<close> either continues
  at a new index with more output, or leaves the loop with the rest of the input kept in
  \<open>pending\<close>, or throws (\<open>String.prototype.repeat\<close> with a negative count).
\<close>

datatype outcome =
    Continue nat renderer jsstring
  | Break renderer
  | Throw

text \<open>The styles re-asserted after a reset code.\<close>

definition restyle :: "renderer \<Rightarrow> jsstring" where
  "restyle s = (if bold s then BOLD else []) @ (if italic s then ITALIC else [])"

text \<open>Opening fence. The two flags are set before the newline is looked for.\<close>

definition open_fence :: "jsstring \<Rightarrow> nat \<Rightarrow> renderer \<Rightarrow> outcome option" where
  "open_fence input i s =
     (if atLineStart s \<and> \<not> inCode s \<and> \<not> inCodeBlock s then
        (let fence = matchFence input i in
         if 0 < fence then
           (let s1 = s\<lparr>inCodeBlock := True, codeBlockTicks := fence\<rparr> in
            case indexOf input c_nl (i + fence) of
              None \<Rightarrow> Some (Break (s1\<lparr>pending := drop i input\<rparr>))
            | Some nl \<Rightarrow>
                Some (Continue (nl + 1) (s1\<lparr>atLineStart := True, lineContent := []\<rparr>) DIM))
         else None)
      else None)"

text \<open>Inside a fenced block: the closing fence, or one character passed through.\<close>

definition code_block :: "jsstring \<Rightarrow> nat \<Rightarrow> renderer \<Rightarrow> outcome option" where
  "code_block input i s =
     (if inCodeBlock s then
        (if atLineStart s \<and> codeBlockTicks s \<le> matchFence input i then
           (let fence = matchFence input i;
                i' = (case indexOf input c_nl (i + fence) of
                        None \<Rightarrow> length input
                      | Some nl \<Rightarrow> nl + 1)
            in Some (Continue i'
                 (s\<lparr>inCodeBlock := False, atLineStart := True, lineContent := []\<rparr>) RESET))
         else if input ! i = c_nl then
           Some (Continue (i + 1) (s\<lparr>atLineStart := True, lineContent := []\<rparr>) [c_nl])
         else
           Some (Continue (i + 1)
             (s\<lparr>atLineStart := False, lineContent := lineContent s @ [input ! i]\<rparr>)
             [input ! i]))
      else None)"

text \<open>A backtick outside a fenced block toggles inline code.\<close>

definition inline_toggle :: "jsstring \<Rightarrow> nat \<Rightarrow> renderer \<Rightarrow> outcome option" where
  "inline_toggle input i s =
     (if input ! i = c_backtick \<and> \<not> inCodeBlock s then
        (let s1 = s\<lparr>inCode := \<not> inCode s\<rparr>;
             out = (if inCode s1 then CYAN else RESET)
                   @ (if \<not> inCode s1 then restyle s1 else [])
         in Some (Continue (i + 1) (s1\<lparr>atLineStart := False\<rparr>) out))
      else None)"

text \<open>Inside inline code every character is literal.\<close>

definition inline_body :: "jsstring \<Rightarrow> nat \<Rightarrow> renderer \<Rightarrow> outcome option" where
  "inline_body input i s =
     (if inCode s then
        (if input ! i = c_nl then
           Some (Continue (i + 1) (s\<lparr>atLineStart := True, lineContent := []\<rparr>) [c_nl])
         else Some (Continue (i + 1) (s\<lparr>atLineStart := False\<rparr>) [input ! i]))
      else None)"

text \<open>Header at line start: the run of \<open>#\<close>, a space, and the rest of the line.\<close>

definition header :: "jsstring \<Rightarrow> nat \<Rightarrow> renderer \<Rightarrow> outcome option" where
  "header input i s =
     (if atLineStart s \<and> input ! i = c_hash then
        (let j = i + length (takeWhile (\<lambda>x. x = c_hash) (drop i input)) in
         if length input \<le> j then Some (Break (s\<lparr>pending := drop i input\<rparr>))
         else if input ! j = c_space then
           (case indexOf input c_nl (j + 1) of
              None \<Rightarrow> Some (Break (s\<lparr>pending := drop i input\<rparr>))
            | Some nl \<Rightarrow>
                Some (Continue (nl + 1) (s\<lparr>atLineStart := True, lineContent := []\<rparr>)
                  (BOLD @ slice input (j + 1) nl @ RESET @ restyle s @ [c_nl])))
         else None)
      else None)"

text \<open>
  The scan of a candidate horizontal rule: from index \<open>j\<close> to the end of the line,
  counting the rule character and stopping at the first character that is neither the
  rule character nor a space. The list is the input from index \<open>j\<close> on.
\<close>

fun hr_scan :: "nat \<Rightarrow> jsstring \<Rightarrow> nat \<Rightarrow> nat \<Rightarrow> nat \<times> nat \<times> bool" where
  "hr_scan ruleChar [] j count = (j, count, True)"
| "hr_scan ruleChar (x # xs) j count =
     (if x = c_nl then (j, count, True)
      else if x = ruleChar then hr_scan ruleChar xs (j + 1) (count + 1)
      else if x \<noteq> c_space then (j, count, False)
      else hr_scan ruleChar xs (j + 1) count)"

text \<open>
  Horizontal rule at line start. \<open>"\<dots>".repeat(ruleWidth)\<close> throws a RangeError when
  \<open>cols - 20\<close> is negative.
\<close>

definition hrule :: "nat \<Rightarrow> jsstring \<Rightarrow> nat \<Rightarrow> renderer \<Rightarrow> outcome option" where
  "hrule columns input i s =
     (if atLineStart s
         \<and> (input ! i = c_dash \<or> input ! i = c_star \<or> input ! i = c_underscore) then
        (case hr_scan (input ! i) (drop i input) i 0 of
           (j, count, isRule) \<Rightarrow>
             if length input \<le> j \<and> count < 3 then
               Some (Break (s\<lparr>pending := drop i input\<rparr>))
             else if isRule \<and> 3 \<le> count \<and> (j < length input \<or> 3 \<le> count) then
               (let cols = term_cols columns in
                if cols < 20 then Some Throw
                else
                  (let ruleWidth = min (cols - 20) 40;
                       out = DIM @ replicate ruleWidth c_box @ RESET @ restyle s;
                       s1 = s\<lparr>atLineStart := True, lineContent := []\<rparr>
                   in if j < length input then Some (Continue (j + 1) s1 (out @ [c_nl]))
                      else Some (Continue j s1 out)))
             else None)
      else None)"

text \<open>Unordered list items at line start: \<open>- item\<close> and \<open>* item\<close>.\<close>

definition bullet :: "nat \<Rightarrow> jsstring \<Rightarrow> nat \<Rightarrow> renderer \<Rightarrow> outcome option" where
  "bullet marker input i s =
     (if atLineStart s \<and> input ! i = marker \<and> i + 1 < length input
         \<and> input ! (i + 1) = c_space then
        Some (Continue (i + 2) (s\<lparr>atLineStart := False, lineContent := [c_bullet, c_space]\<rparr>)
          (DIM @ [c_bullet] @ RESET @ [c_space] @ restyle s))
      else None)"

text \<open>Ordered list items at line start: digits, a dot and a space.\<close>

definition is_digit :: "nat \<Rightarrow> bool" where
  "is_digit c = (c_zero \<le> c \<and> c \<le> c_nine)"

definition numbered :: "jsstring \<Rightarrow> nat \<Rightarrow> renderer \<Rightarrow> outcome option" where
  "numbered input i s =
     (if atLineStart s \<and> is_digit (input ! i) then
        (let j = i + length (takeWhile is_digit (drop i input)) in
         if j < length input \<and> input ! j = c_dot \<and> j + 1 < length input
            \<and> input ! (j + 1) = c_space then
           (let num = slice input i j in
            Some (Continue (j + 2)
              (s\<lparr>atLineStart := False, lineContent := num @ [c_dot, c_space]\<rparr>)
              (DIM @ num @ [c_dot] @ RESET @ [c_space] @ restyle s)))
         else None)
      else None)"

text \<open>Bold: two stars toggle it; closing re-asserts italic.\<close>

definition bold_toggle :: "jsstring \<Rightarrow> nat \<Rightarrow> renderer \<Rightarrow> outcome option" where
  "bold_toggle input i s =
     (if input ! i = c_star \<and> i + 1 < length input \<and> input ! (i + 1) = c_star then
        (let s1 = s\<lparr>bold := \<not> bold s\<rparr>;
             out = (if bold s1 then BOLD else NO_BOLD)
                   @ (if \<not> bold s1 \<and> italic s1 then ITALIC else [])
         in Some (Continue (i + 2) (s1\<lparr>atLineStart := False\<rparr>) out))
      else None)"

text \<open>Italic: one star, kept back when it is the last character of the input.\<close>

definition italic_toggle :: "jsstring \<Rightarrow> nat \<Rightarrow> renderer \<Rightarrow> outcome option" where
  "italic_toggle input i s =
     (if input ! i = c_star then
        (if i = length input - 1 then Some (Break (s\<lparr>pending := [c_star]\<rparr>))
         else
           (let s1 = s\<lparr>italic := \<not> italic s\<rparr>
            in Some (Continue (i + 1) (s1\<lparr>atLineStart := False\<rparr>)
                 (if italic s1 then ITALIC else NO_ITALIC))))
      else None)"

text \<open>
  Links \<open>[text](url)\<close>. An unmatched bracket is kept back while fewer than 200
  characters follow the bracket's position, an unmatched target while fewer than 500 do;
  otherwise, and for a bracket that starts no link, the bracket is a literal character.
\<close>

definition link :: "jsstring \<Rightarrow> nat \<Rightarrow> renderer \<Rightarrow> outcome option" where
  "link input i s =
     (if input ! i = c_lbracket then
        (case indexOf input c_rbracket (i + 1) of
           None \<Rightarrow>
             if length input - i < 200 then Some (Break (s\<lparr>pending := drop i input\<rparr>))
             else None
         | Some closeBracket \<Rightarrow>
             if closeBracket + 1 < length input \<and> input ! (closeBracket + 1) = c_lparen then
               (case indexOf input c_rparen (closeBracket + 2) of
                  None \<Rightarrow>
                    if length input - i < 500 then
                      Some (Break (s\<lparr>pending := drop i input\<rparr>))
                    else None
                | Some closeParen \<Rightarrow>
                    (let linkText = slice input (i + 1) closeBracket;
                         url = slice input (closeBracket + 2) closeParen
                     in Some (Continue (closeParen + 1) (s\<lparr>atLineStart := False\<rparr>)
                          (UNDERLINE @ linkText @ NO_UNDERLINE @ DIM @ [c_space, c_lparen]
                           @ url @ [c_rparen] @ RESET @ restyle s))))
             else None)
      else None)"

text \<open>A newline, and last any other character, are copied to the output.\<close>

definition literal :: "jsstring \<Rightarrow> nat \<Rightarrow> renderer \<Rightarrow> outcome" where
  "literal input i s =
     (if input ! i = c_nl then
        Continue (i + 1) (s\<lparr>atLineStart := True, lineContent := []\<rparr>) [c_nl]
      else
        Continue (i + 1)
          (s\<lparr>atLineStart := False, lineContent := lineContent s @ [input ! i]\<rparr>)
          [input ! i])"

text \<open>The branches in the order of the loop body; the first that applies decides.\<close>

fun first_of :: "outcome option list \<Rightarrow> outcome \<Rightarrow> outcome" where
  "first_of [] d = d"
| "first_of (None # rs) d = first_of rs d"
| "first_of (Some r # rs) d = r"

definition push_step :: "nat \<Rightarrow> jsstring \<Rightarrow> nat \<Rightarrow> renderer \<Rightarrow> outcome" where
  "push_step columns input i s =
     first_of
       [open_fence input i s, code_block input i s, inline_toggle input i s,
        inline_body input i s, header input i s, hrule columns input i s,
        bullet c_dash input i s, bullet c_star input i s, numbered input i s,
        bold_toggle input i s, italic_toggle input i s, link input i s]
       (literal input i s)"

datatype error = RangeError

function push_loop ::
  "nat \<Rightarrow> jsstring \<Rightarrow> nat \<Rightarrow> renderer \<Rightarrow> jsstring \<Rightarrow> error + jsstring \<times> renderer" where
  "push_loop columns input i s out =
     (if i < length input then
        (case push_step columns input i s of
           Continue i' s' out' \<Rightarrow> push_loop columns input i' s' (out @ out')
         | Break s' \<Rightarrow> Inr (out, s')
         | Throw \<Rightarrow> Inl RangeError)
      else Inr (out, s))"
  by pat_completeness auto

text \<open>
  The shapes of a pending buffer: empty; or an unterminated link, which starts with a
  bracket, is shorter than 500 characters, and shorter than 200 while it holds no
  closing bracket; or the beginning of a fence line, a header line, a rule or list
  line or a lone star, which holds no newline.
\<close>

definition pending_shape :: "jsstring \<Rightarrow> bool" where
  "pending_shape p =
     (case p of
        [] \<Rightarrow> True
      | c # rest \<Rightarrow>
          if c = c_lbracket then
            length p < 500 \<and> (c_rbracket \<in> set rest \<or> length p < 200)
          else
            c \<in> {c_backtick, c_tilde, c_hash, c_dash, c_star, c_underscore}
            \<and> c_nl \<notin> set p)"

text \<open>\<open>push(chunk)\<close>: the pending characters are put back in front of the chunk.\<close>

definition push :: "nat \<Rightarrow> renderer \<Rightarrow> jsstring \<Rightarrow> error + jsstring \<times> renderer" where
  "push columns s chunk = push_loop columns (pending s @ chunk) 0 (s\<lparr>pending := []\<rparr>) []"

text \<open>\<open>flush()\<close>: the pending characters, a reset code if any style is open.\<close>

definition flush :: "renderer \<Rightarrow> jsstring \<times> renderer" where
  "flush s =
     (pending s @ (if bold s \<or> italic s \<or> inCode s \<or> inCodeBlock s then RESET else []),
      s\<lparr>pending := [], bold := False, italic := False, inCode := False,
        inCodeBlock := False, atLineStart := True, lineContent := []\<rparr>)"

text \<open>
  A sequence of \<open>push\<close> calls on one renderer, the outputs concatenated; an exception
  ends the sequence.
\<close>

fun push_all ::
  "nat \<Rightarrow> renderer \<Rightarrow> jsstring list \<Rightarrow> error + jsstring \<times> renderer" where
  "push_all columns s [] = Inr ([], s)"
| "push_all columns s (c # cs) =
     (case push columns s c of
        Inl e \<Rightarrow> Inl e
      | Inr (out, s') \<Rightarrow>
          (case push_all columns s' cs of
             Inl e \<Rightarrow> Inl e
           | Inr (out', s'') \<Rightarrow> Inr (out @ out', s'')))"

text \<open>The text a caller has written once the stream is closed with \<open>flush\<close>.\<close>

definition render_chunks :: "nat \<Rightarrow> jsstring list \<Rightarrow> error + jsstring" where
  "render_chunks columns cs =
     (case push_all columns new_renderer cs of
        Inl e \<Rightarrow> Inl e
      | Inr (out, s) \<Rightarrow> Inr (out @ fst (flush s)))"














section \<open>The line wrapper\<close>

definition ASSISTANT_INDENT :: jsstring where
  "ASSISTANT_INDENT = replicate 16 c_space"

text \<open>The parameter and intermediate bytes of a control sequence: 0x20 to 0x3f.\<close>

definition is_param :: "nat \<Rightarrow> bool" where
  "is_param c = (32 \<le> c \<and> c \<le> 63)"

text \<open>
  \<open>wrapAssistantText\<close>: the \<open>for\<close> loop over the text with its column and result. In
  the escape branch the loop's own \<open>i++\<close> steps over the final byte, and over the
  character after an escape that is not followed by \<open>[\<close>. The column is an integer:
  the caller's start column is not checked.
\<close>

function wrap_loop :: "int \<Rightarrow> jsstring \<Rightarrow> nat \<Rightarrow> int \<Rightarrow> jsstring \<Rightarrow> jsstring \<times> int" where
  "wrap_loop cols text i col result =
     (if i < length text then
        (let ch = text ! i in
         if ch = c_esc then
           (let r1 = result @ [ch]; i1 = i + 1 in
            if i1 < length text \<and> text ! i1 = c_lbracket then
              (let r2 = r1 @ [text ! i1];
                   i2 = i1 + 1;
                   params = takeWhile is_param (drop i2 text);
                   i3 = i2 + length params;
                   r3 = r2 @ params;
                   r4 = (if i3 < length text then r3 @ [text ! i3] else r3)
               in wrap_loop cols text (i3 + 1) col r4)
            else wrap_loop cols text (i1 + 1) col r1)
         else if ch = c_nl then
           wrap_loop cols text (i + 1) (int (length ASSISTANT_INDENT))
             (result @ [c_nl] @ ASSISTANT_INDENT)
         else
           (let r1 = (if cols \<le> col then result @ [c_nl] @ ASSISTANT_INDENT else result);
                col1 = (if cols \<le> col then int (length ASSISTANT_INDENT) else col)
            in wrap_loop cols text (i + 1) (col1 + 1) (r1 @ [ch])))
      else (result, col))"
  by pat_completeness auto

definition wrapAssistantText :: "nat \<Rightarrow> jsstring \<Rightarrow> int \<Rightarrow> jsstring \<times> int" where
  "wrapAssistantText columns text startCol =
     wrap_loop (int (term_cols columns)) text 0 startCol []"

text \<open>The text of the column-tracking example: \<open>"hello\x1b[1mworld\x1b[0m!"\<close>.\<close>

definition sample_text :: jsstring where
  "sample_text = ustr ''hello'' @ BOLD @ ustr ''world'' @ RESET @ ustr ''!''"

section \<open>The display coordinator\<close>

text \<open>
  Every \<open>process.stdout.write\<close> of the coordinator is one entry of the screen log,
  tagged by the call site that wrote it: the erase codes of \<open>eraseLines\<close>, the cursor
  moves of \<open>writeStreaming\<close>, streamed and permanent text, the spinner line and the
  prompt line (each with the string written).
\<close>

datatype term_write =
    ClearLine
  | CursorUp
  | CarriageReturn
  | Newline
  | CursorRight nat
  | StreamText jsstring
  | PermanentText jsstring
  | DirectText jsstring
  | SpinnerLine jsstring
  | PromptLine jsstring

record display =
  inputBuffer :: jsstring
  spinnerTimer :: bool
  dynamicLineCount :: nat
  streamingCol :: nat
  streamingActive :: bool
  promptVisible :: bool
  spinnerFrame :: nat
  escapeSeq :: nat
  messageQueue :: "jsstring list"
  processing :: bool
  running :: bool
  screen :: "term_write list"

definition initial_display :: display where
  "initial_display = \<lparr>inputBuffer = [], spinnerTimer = False, dynamicLineCount = 0,
     streamingCol = 0, streamingActive = False, promptVisible = False, spinnerFrame = 0,
     escapeSeq = 0, messageQueue = [], processing = False, running = True, screen = []\<rparr>"

definition SPINNER_FRAMES :: jsstring where
  "SPINNER_FRAMES = [10251, 10265, 10297, 10296, 10300, 10292, 10278, 10279, 10247, 10255]"

definition emit :: "term_write list \<Rightarrow> display \<Rightarrow> display" where
  "emit ws d = d\<lparr>screen := screen d @ ws\<rparr>"

text \<open>\<open>eraseLines(count)\<close>: clear a line and move up, \<open>count\<close> times, then column 0.\<close>

definition eraseLines :: "nat \<Rightarrow> term_write list" where
  "eraseLines count =
     concat (map (\<lambda>i. ClearLine # (if i + 1 < count then [CursorUp] else [])) [0..<count])
     @ [CarriageReturn]"

definition lastIndexOf :: "jsstring \<Rightarrow> nat \<Rightarrow> nat option" where
  "lastIndexOf s c = map_option (\<lambda>k. length s - 1 - k) (find_first c (rev s))"

definition getVisibleInput :: "nat \<Rightarrow> display \<Rightarrow> jsstring" where
  "getVisibleInput columns d =
     (let maxInput = int (term_cols columns) - 5;
          currentLine = (case lastIndexOf (inputBuffer d) c_nl of
                           Some lastNl \<Rightarrow> drop (lastNl + 1) (inputBuffer d)
                         | None \<Rightarrow> inputBuffer d)
      in if maxInput < int (length currentLine) then
           drop (nat (int (length currentLine) - maxInput)) currentLine
         else currentLine)"

text \<open>The prompt prefix: \<open>..\<close> once the buffer holds a newline, \<open>>\<close> otherwise.\<close>

definition promptPrefix :: "display \<Rightarrow> jsstring" where
  "promptPrefix d =
     (if c_nl \<in> set (inputBuffer d) then ustr ''  '' @ DIM @ ustr ''..'' @ RESET @ ustr '' ''
      else ustr ''  '' @ BRIGHT_MAGENTA @ ustr ''>'' @ RESET @ ustr '' '')"

text \<open>The two strings of the dynamic region: the prompt line and the spinner line.\<close>

definition promptText :: "nat \<Rightarrow> display \<Rightarrow> jsstring" where
  "promptText columns d = promptPrefix d @ getVisibleInput columns d"

definition spinnerText :: "display \<Rightarrow> jsstring" where
  "spinnerText d =
     ustr ''  '' @ DIM @ [SPINNER_FRAMES ! spinnerFrame d] @ ustr '' Thinking...'' @ RESET
     @ [c_nl]"

definition drawSpinnerAndPrompt :: "nat \<Rightarrow> display \<Rightarrow> display" where
  "drawSpinnerAndPrompt columns d =
     (emit [SpinnerLine (spinnerText d), PromptLine (promptText columns d)] d)
       \<lparr>dynamicLineCount := 2\<rparr>"

text \<open>The guarded erase that opens every redraw.\<close>

definition eraseDynamic :: "display \<Rightarrow> display" where
  "eraseDynamic d =
     (if 0 < dynamicLineCount d then
        (emit (eraseLines (dynamicLineCount d)) d)\<lparr>dynamicLineCount := 0\<rparr>
      else d)"

definition redrawPrompt :: "nat \<Rightarrow> display \<Rightarrow> display" where
  "redrawPrompt columns d =
     (let hadDynamic = (0 < dynamicLineCount d);
          d1 = eraseDynamic d
      in if spinnerTimer d1 then drawSpinnerAndPrompt columns d1
         else
           (let d2 = (if streamingActive d1 \<and> \<not> hadDynamic then emit [Newline] d1 else d1)
            in (emit [PromptLine (promptText columns d2)] d2)
                 \<lparr>dynamicLineCount := 1, promptVisible := True\<rparr>))"

definition writePermanent :: "nat \<Rightarrow> jsstring \<Rightarrow> display \<Rightarrow> display" where
  "writePermanent columns text d =
     (let hadDynamic = (0 < dynamicLineCount d);
          d1 = eraseDynamic d;
          d2 = (if streamingActive d1 then
                  (if hadDynamic then d1 else emit [Newline] d1)
                    \<lparr>streamingActive := False, streamingCol := 0\<rparr>
                else d1);
          d3 = emit [PermanentText (text @ [c_nl])] d2
      in if spinnerTimer d3 then drawSpinnerAndPrompt columns d3
         else if promptVisible d3 then redrawPrompt columns d3
         else d3)"

text \<open>\<open>updateStreamingCol\<close>: the column after the text, control sequences skipped.\<close>

function col_loop :: "nat \<Rightarrow> jsstring \<Rightarrow> nat \<Rightarrow> nat \<Rightarrow> nat" where
  "col_loop cols text i col =
     (if i < length text then
        (let ch = text ! i in
         if ch = c_esc then
           (let i1 = i + 1 in
            if i1 < length text \<and> text ! i1 = c_lbracket then
              (let i2 = i1 + 1;
                   i3 = i2 + length (takeWhile is_param (drop i2 text));
                   i4 = (if i3 < length text then i3 + 1 else i3)
               in col_loop cols text i4 col)
            else col_loop cols text i1 col)
         else if ch = c_nl then col_loop cols text (i + 1) 0
         else if ch = c_cr then col_loop cols text (i + 1) 0
         else
           (let col1 = col + 1
            in col_loop cols text (i + 1) (if cols \<le> col1 then 0 else col1)))
      else col)"
  by pat_completeness auto

definition updateStreamingCol :: "nat \<Rightarrow> jsstring \<Rightarrow> display \<Rightarrow> display" where
  "updateStreamingCol columns text d =
     d\<lparr>streamingCol := col_loop (term_cols columns) text 0 (streamingCol d)\<rparr>"

definition writeStreaming :: "nat \<Rightarrow> jsstring \<Rightarrow> display \<Rightarrow> display" where
  "writeStreaming columns text d =
     (let d1 = (if 0 < dynamicLineCount d then
                  (let e = eraseDynamic d
                   in if streamingActive e then
                        emit (CursorUp # (if 0 < streamingCol e
                                         then [CursorRight (streamingCol e)] else [])) e
                      else e)
                else d);
          d2 = (emit [StreamText text] d1)\<lparr>streamingActive := True\<rparr>;
          d3 = updateStreamingCol columns text d2
      in redrawPrompt columns d3)"

definition stopSpinner :: "display \<Rightarrow> display" where
  "stopSpinner d = (if spinnerTimer d then d\<lparr>spinnerTimer := False\<rparr> else d)"

definition clearSpinner :: "nat \<Rightarrow> display \<Rightarrow> display" where
  "clearSpinner columns d = redrawPrompt columns (eraseDynamic (stopSpinner d))"

definition startSpinner :: "nat \<Rightarrow> display \<Rightarrow> display" where
  "startSpinner columns d =
     (drawSpinnerAndPrompt columns (eraseDynamic (d\<lparr>spinnerFrame := 0, streamingCol := 0\<rparr>)))
       \<lparr>spinnerTimer := True\<rparr>"

text \<open>One tick of the spinner's interval timer; its erase is not guarded.\<close>

definition spinnerTick :: "nat \<Rightarrow> display \<Rightarrow> display" where
  "spinnerTick columns d =
     (let d1 = d\<lparr>spinnerFrame := (spinnerFrame d + 1) mod length SPINNER_FRAMES\<rparr>;
          d2 = (emit (eraseLines (dynamicLineCount d1)) d1)\<lparr>dynamicLineCount := 0\<rparr>
      in drawSpinnerAndPrompt columns d2)"

section \<open>The input line editor\<close>

text \<open>
  \<open>shutdown\<close> runs once; after it the process has exited, which the \<open>running\<close> flag
  records. Its farewell goes to the original \<open>console.log\<close>, past the coordinator.
\<close>

definition shutdown :: "display \<Rightarrow> display" where
  "shutdown d =
     (if \<not> running d then d
      else
        (let d1 = eraseDynamic (stopSpinner (d\<lparr>running := False\<rparr>));
             d2 = d1\<lparr>promptVisible := False\<rparr>
         in emit [DirectText ([c_nl] @ ustr ''  '' @ DIM @ ustr ''Shutting down...'' @ RESET
                              @ [c_nl])] d2))"

text \<open>\<open>String.prototype.trim\<close>: white space and line terminators of ECMAScript.\<close>

definition is_js_space :: "nat \<Rightarrow> bool" where
  "is_js_space c =
     (c \<in> {9, 10, 11, 12, 13, 32, 160, 5760, 8232, 8233, 8239, 8287, 12288, 65279}
      \<or> (8192 \<le> c \<and> c \<le> 8202))"

definition trim :: "jsstring \<Rightarrow> jsstring" where
  "trim s = rev (dropWhile is_js_space (rev (dropWhile is_js_space s)))"

text \<open>Decimal digits of a number, as template strings print it.\<close>

fun dec :: "nat \<Rightarrow> jsstring" where
  "dec n = (if n < 10 then [c_zero + n] else dec (n div 10) @ [c_zero + n mod 10])"

text \<open>\<open>s.slice(0, e)\<close>: a negative end counts from the end of the string.\<close>

definition slice_to :: "jsstring \<Rightarrow> int \<Rightarrow> jsstring" where
  "slice_to s e = (if e < 0 then take (nat (int (length s) + e)) s else take (nat e) s)"

definition YELLOW :: jsstring where "YELLOW = sgr ''[33m''"
definition c_circle :: nat where "c_circle = 9675"
definition c_ellipsis :: nat where "c_ellipsis = 8230"

text \<open>The line printed for a message typed while a batch is processed.\<close>

definition queuedNotice :: "nat \<Rightarrow> nat \<Rightarrow> jsstring \<Rightarrow> jsstring" where
  "queuedNotice columns queueNum line =
     (let cols = int (term_cols columns);
          queuePrefix = ustr ''  '' @ [c_circle] @ ustr '' queued ('' @ dec queueNum
                        @ ustr '' pending) '';
          maxQueueText = cols - int (length queuePrefix);
          queueDisplay = (if maxQueueText < int (length line)
                          then slice_to line (maxQueueText - 1) @ [c_ellipsis] else line)
      in ustr ''  '' @ YELLOW @ [c_circle] @ RESET @ ustr '' '' @ DIM @ ustr ''queued (''
         @ dec queueNum @ ustr '' pending)'' @ RESET @ ustr '' '' @ queueDisplay)"

text \<open>
  \<open>handleChar(ch)\<close>: \<open>ch\<close> is one element of the iteration over the decoded chunk, a
  string of one code point; \<open>code\<close> is its first code unit.
\<close>

definition handleChar :: "nat \<Rightarrow> jsstring \<Rightarrow> display \<Rightarrow> display" where
  "handleChar columns ch d =
     (let code = (case ch of [] \<Rightarrow> None | c # _ \<Rightarrow> Some c) in
      if escapeSeq d = 1 then d\<lparr>escapeSeq := (if ch = [c_lbracket] then 2 else 0)\<rparr>
      else if escapeSeq d = 2 then d\<lparr>escapeSeq := 0\<rparr>
      else if code = Some 27 then d\<lparr>escapeSeq := 1\<rparr>
      else if code = Some 3 then shutdown d
      else if code = Some 4 \<and> length (inputBuffer d) = 0 then shutdown d
      else if ch = [c_cr] \<or> ch = [c_nl] then
        (if inputBuffer d \<noteq> [] \<and> last (inputBuffer d) = c_backslash then
           redrawPrompt columns (d\<lparr>inputBuffer := butlast (inputBuffer d) @ [c_nl]\<rparr>)
         else
           (let line = trim (inputBuffer d);
                d1 = d\<lparr>inputBuffer := []\<rparr>
            in if line = [] then redrawPrompt columns d1
               else
                 (let d2 = d1\<lparr>messageQueue := messageQueue d1 @ [line]\<rparr>;
                      d3 = (if processing d2 then
                              writePermanent columns
                                (queuedNotice columns (length (messageQueue d2)) line) d2
                            else d2)
                  in redrawPrompt columns d3)))
      else if code = Some 127 \<or> code = Some 8 then
        (if 0 < length (inputBuffer d) then
           redrawPrompt columns (d\<lparr>inputBuffer := butlast (inputBuffer d)\<rparr>)
         else d)
      else if (case code of Some c \<Rightarrow> c < 32 | None \<Rightarrow> False) then d
      else redrawPrompt columns (d\<lparr>inputBuffer := inputBuffer d @ ch\<rparr>))"

text \<open>
  The events that reach the coordinator. After \<open>shutdown\<close> the process is gone and no
  further event is handled. The start of a batch in the main loop sets \<open>processing\<close>
  and drains the message queue into the batch, in one synchronous block; the end of a
  batch leaves the streaming state and redraws the prompt. A spinner tick is allowed at
  any time: a second
  \<open>startSpinner\<close> leaves the first interval timer running, and \<open>stopSpinner\<close> clears
  the last one only.
\<close>

datatype event =
    StartSpinner
  | ClearSpinner
  | WriteStreaming jsstring
  | WritePermanent jsstring
  | SpinnerTick
  | Key jsstring
  | BatchStart
  | BatchEnd

definition handle :: "nat \<Rightarrow> event \<Rightarrow> display \<Rightarrow> display" where
  "handle columns e d =
     (if \<not> running d then d
      else case e of
        StartSpinner \<Rightarrow> startSpinner columns d
      | ClearSpinner \<Rightarrow> clearSpinner columns d
      | WriteStreaming text \<Rightarrow> writeStreaming columns text d
      | WritePermanent text \<Rightarrow> writePermanent columns text d
      | SpinnerTick \<Rightarrow> spinnerTick columns d
      | Key ch \<Rightarrow> handleChar columns ch d
      | BatchStart \<Rightarrow> d\<lparr>processing := True, messageQueue := []\<rparr>
      | BatchEnd \<Rightarrow>
          redrawPrompt columns
            (d\<lparr>processing := False, streamingActive := False, streamingCol := 0\<rparr>))"

definition run :: "nat \<Rightarrow> event list \<Rightarrow> display \<Rightarrow> display" where
  "run columns es d = fold (handle columns) es d"

text \<open>
  Every handler reads \<open>process.stdout.columns\<close> when it is called, so the terminal can
  be resized between two events: a run in which each event comes with the column count
  its handler reads, and the runs in which no handler has read a terminal wider than
  \<open>columns\<close>.
\<close>

definition run_resized :: "(nat \<times> event) list \<Rightarrow> display \<Rightarrow> display" where
  "run_resized es d = fold (\<lambda>(columns, e). handle columns e) es d"


text \<open>
  The dynamic region as the screen log shows it: how many lines the last redraw has
  written that no erase has cleared yet, and whether a spinner line still waits for its
  prompt line. A line is cleared only if one is drawn, a redraw and any other text start
  only on an empty region; \<open>None\<close> is a log that breaks this.
\<close>

fun region_step :: "nat \<times> bool \<Rightarrow> term_write \<Rightarrow> (nat \<times> bool) option" where
  "region_step (n, sp) ClearLine = (if \<not> sp \<and> 0 < n then Some (n - 1, False) else None)"
| "region_step (n, sp) (SpinnerLine t) = (if \<not> sp \<and> n = 0 then Some (1, True) else None)"
| "region_step (n, sp) (PromptLine t) =
     (if sp then Some (n + 1, False) else if n = 0 then Some (1, False) else None)"
| "region_step (n, sp) (StreamText t) = (if \<not> sp \<and> n = 0 then Some (0, False) else None)"
| "region_step (n, sp) (PermanentText t) = (if \<not> sp \<and> n = 0 then Some (0, False) else None)"
| "region_step (n, sp) (DirectText t) = (if \<not> sp \<and> n = 0 then Some (0, False) else None)"
| "region_step (n, sp) Newline = (if \<not> sp \<and> n = 0 then Some (0, False) else None)"
| "region_step (n, sp) CursorUp = (if sp then None else Some (n, False))"
| "region_step (n, sp) CarriageReturn = (if sp then None else Some (n, False))"
| "region_step (n, sp) (CursorRight k) = (if sp then None else Some (n, False))"

fun region :: "nat \<times> bool \<Rightarrow> term_write list \<Rightarrow> (nat \<times> bool) option" where
  "region r [] = Some r"
| "region r (w # ws) = (case region_step r w of None \<Rightarrow> None | Some r' \<Rightarrow> region r' ws)"

text \<open>
  Erase symmetry of a coordinator state: its screen log never cleared a line that was
  not drawn nor drew on lines not yet cleared, and \<open>dynamicLineCount\<close> is the number
  of lines the last redraw wrote and that are still on the screen.
\<close>

definition erase_symmetric :: "display \<Rightarrow> bool" where
  "erase_symmetric d = (region (0, False) (screen d) = Some (dynamicLineCount d, False))"

text \<open>Every cursor-right move of a screen log is by fewer than \<open>cols\<close> columns.\<close>

fun right_moves_below :: "nat \<Rightarrow> term_write list \<Rightarrow> bool" where
  "right_moves_below cols [] = True"
| "right_moves_below cols (CursorRight k # ws) = (k < cols \<and> right_moves_below cols ws)"
| "right_moves_below cols (w # ws) = right_moves_below cols ws"

text \<open>The streaming column and every cursor-right move so far lie inside the terminal.\<close>

definition cols_ok :: "nat \<Rightarrow> display \<Rightarrow> bool" where
  "cols_ok c d = (streamingCol d < term_cols c \<and> right_moves_below (term_cols c) (screen d))"

section \<open>Facts about the string helpers\<close>

lemmas char_defs = c_nl_def c_cr_def c_esc_def c_space_def c_hash_def c_lparen_def
  c_rparen_def c_star_def c_dash_def c_dot_def c_zero_def c_nine_def c_lbracket_def
  c_backslash_def c_rbracket_def c_underscore_def c_backtick_def c_tilde_def
  c_bullet_def c_box_def

lemmas style_defs = RESET_def BOLD_def DIM_def ITALIC_def CYAN_def BRIGHT_MAGENTA_def
  UNDERLINE_def NO_UNDERLINE_def NO_BOLD_def NO_ITALIC_def sgr_def ustr_def

lemma find_first_bound: "find_first c xs = Some k \<Longrightarrow> k < length xs \<and> xs ! k = c"
  by (induction xs arbitrary: k) (auto split: if_splits)

lemma indexOf_ge: "indexOf s c from = Some k \<Longrightarrow> from \<le> k \<and> k < length s \<and> s ! k = c"
  by (auto simp: indexOf_def dest!: find_first_bound)

lemma hr_scan_ge: "hr_scan rc xs j count = (j', count', r) \<Longrightarrow> j \<le> j'"
  by (induction xs arbitrary: j count) (auto split: if_splits dest: Suc_leD)

lemma hr_scan_advance:
  assumes "hr_scan rc xs j count = (j', count', True)" and "xs \<noteq> []" and "hd xs = rc"
    and "rc \<noteq> c_nl"
  shows "j < j'"
proof (cases xs)
  case Nil
  with assms show ?thesis by simp
next
  case (Cons x ys)
  with assms have "hr_scan rc ys (j + 1) (count + 1) = (j', count', True)" by simp
  from hr_scan_ge [OF this] show ?thesis by simp
qed

lemma first_of_cases: "first_of rs d = r \<Longrightarrow> Some r \<in> set rs \<or> r = d"
  by (induction rs d rule: first_of.induct) auto

lemma push_step_advances:
  assumes "i < length input" and "push_step columns input i s = Continue i' s' out'"
  shows "i < i'"
proof -
  have hd: "hd (drop i input) = input ! i" and ne: "drop i input \<noteq> []"
    using assms(1) by (simp_all add: hd_drop_conv_nth)
  have a1: "open_fence input i s = Some (Continue i' s' out') \<Longrightarrow> i < i'"
    by (auto simp: open_fence_def Let_def split: if_splits option.splits dest!: indexOf_ge)
  have a2: "code_block input i s = Some (Continue i' s' out') \<Longrightarrow> i < i'"
    using assms(1)
    by (auto simp: code_block_def Let_def split: if_splits option.splits dest!: indexOf_ge)
  have a3: "inline_toggle input i s = Some (Continue i' s' out') \<Longrightarrow> i < i'"
    by (auto simp: inline_toggle_def Let_def split: if_splits)
  have a4: "inline_body input i s = Some (Continue i' s' out') \<Longrightarrow> i < i'"
    by (auto simp: inline_body_def split: if_splits)
  have a5: "header input i s = Some (Continue i' s' out') \<Longrightarrow> i < i'"
    by (auto simp: header_def Let_def split: if_splits option.splits dest!: indexOf_ge)
  have a6: "hrule columns input i s = Some (Continue i' s' out') \<Longrightarrow> i < i'"
  proof -
    assume h: "hrule columns input i s = Some (Continue i' s' out')"
    obtain j count isRule where sc: "hr_scan (input ! i) (drop i input) i 0 = (j, count, isRule)"
      by (cases "hr_scan (input ! i) (drop i input) i 0") auto
    from h sc have r: "isRule" and rc: "input ! i \<noteq> c_nl" and ij: "i' = j + 1 \<or> i' = j"
      by (auto simp: hrule_def Let_def char_defs split: if_splits)
    from sc r have sc': "hr_scan (input ! i) (drop i input) i 0 = (j, count, True)"
      by simp
    have "i < j"
      by (rule hr_scan_advance [OF sc' ne hd rc])
    with ij show "i < i'" by auto
  qed
  have a7: "\<And>m. bullet m input i s = Some (Continue i' s' out') \<Longrightarrow> i < i'"
    by (auto simp: bullet_def split: if_splits)
  have a8: "numbered input i s = Some (Continue i' s' out') \<Longrightarrow> i < i'"
    by (auto simp: numbered_def Let_def split: if_splits)
  have a9: "bold_toggle input i s = Some (Continue i' s' out') \<Longrightarrow> i < i'"
    by (auto simp: bold_toggle_def Let_def split: if_splits)
  have a10: "italic_toggle input i s = Some (Continue i' s' out') \<Longrightarrow> i < i'"
    by (auto simp: italic_toggle_def Let_def split: if_splits)
  have a11: "link input i s = Some (Continue i' s' out') \<Longrightarrow> i < i'"
    by (auto simp: link_def Let_def split: if_splits option.splits dest!: indexOf_ge)
  have a12: "literal input i s = Continue i' s' out' \<Longrightarrow> i < i'"
    by (auto simp: literal_def split: if_splits)
  from assms(2) have
    "Some (Continue i' s' out') \<in> set
       [open_fence input i s, code_block input i s, inline_toggle input i s,
        inline_body input i s, header input i s, hrule columns input i s,
        bullet c_dash input i s, bullet c_star input i s, numbered input i s,
        bold_toggle input i s, italic_toggle input i s, link input i s]
     \<or> Continue i' s' out' = literal input i s"
    unfolding push_step_def by (rule first_of_cases)
  then show ?thesis
    using a1 a2 a3 a4 a5 a6 a7 a8 a9 a10 a11 a12 by (simp only: set_simps) fastforce
qed

termination push_loop
proof (relation "measure (\<lambda>(columns, input, i, s, out). length input - i)", goal_cases)
  case 1
  show ?case by simp
next
  case (2 columns input i s out i' s' out')
  from push_step_advances [OF 2(1) 2(2)] 2(1) show ?case by simp
qed


termination wrap_loop
  by (relation "measure (\<lambda>(cols, text, i, col, result). length text - i)") auto

termination col_loop
  by (relation "measure (\<lambda>(cols, text, i, col). length text - i)") auto

declare push_loop.simps [simp del]
declare wrap_loop.simps [simp del]
declare col_loop.simps [simp del]
declare dec.simps [simp del]

lemmas step_defs = push_step_def open_fence_def code_block_def inline_toggle_def
  inline_body_def header_def hrule_def bullet_def numbered_def bold_toggle_def
  italic_toggle_def link_def literal_def matchFence_def charAt_def is_digit_def
  indexOf_def restyle_def slice_def term_cols_def

section \<open>Closing the stream\<close>

lemma push_bold_open:
  "push 80 new_renderer (ustr ''**bold'') =
     Inr (BOLD @ ustr ''bold'',
          new_renderer\<lparr>bold := True, atLineStart := False, lineContent := ustr ''bold''\<rparr>)"
  by (simp add: push_def push_loop.simps step_defs new_renderer_def char_defs style_defs)

text \<open>
  Claim C5 (style closure on flush). After any sequence of \<open>push\<close> calls that leaves
  bold, italic, inline code or a fenced block open, \<open>flush\<close> returns the pending
  characters followed by the full reset code, and the renderer it leaves has the four
  style flags cleared, no pending characters and is at line start.
\<close>

theorem flush_closes_styles:
  assumes "push_all columns new_renderer chunks = Inr (out, s)"
    and "bold s \<or> italic s \<or> inCode s \<or> inCodeBlock s"
  shows "fst (flush s) = pending s @ RESET
    \<and> \<not> bold (snd (flush s)) \<and> \<not> italic (snd (flush s)) \<and> \<not> inCode (snd (flush s))
    \<and> \<not> inCodeBlock (snd (flush s)) \<and> atLineStart (snd (flush s))
    \<and> pending (snd (flush s)) = [] \<and> lineContent (snd (flush s)) = []"
  using assms(2) by (simp add: flush_def)

theorem flush_closes_styles_witness:
  "push_all 80 new_renderer [ustr ''**bold''] =
     Inr (BOLD @ ustr ''bold'',
          new_renderer\<lparr>bold := True, atLineStart := False, lineContent := ustr ''bold''\<rparr>)
   \<and> fst (flush (new_renderer\<lparr>bold := True, atLineStart := False,
                       lineContent := ustr ''bold''\<rparr>)) = RESET
   \<and> snd (flush (new_renderer\<lparr>bold := True, atLineStart := False,
                       lineContent := ustr ''bold''\<rparr>)) = new_renderer"
proof -
  let ?s = "new_renderer\<lparr>bold := True, atLineStart := False, lineContent := ustr ''bold''\<rparr>"
  have p: "push_all 80 new_renderer [ustr ''**bold''] = Inr (BOLD @ ustr ''bold'', ?s)"
    by (simp add: push_bold_open)
  have b: "bold ?s \<or> italic ?s \<or> inCode ?s \<or> inCodeBlock ?s"
    by (simp add: new_renderer_def)
  from flush_closes_styles [OF p b] p show ?thesis
    by (simp add: new_renderer_def flush_def)
qed

text \<open>
  Claim C9 (flush is idempotent). In every renderer state, hence after any sequence of
  \<open>push\<close> calls, a second \<open>flush\<close> right after a first returns the empty string and
  changes nothing: the first has emptied the pending buffer and cleared every style flag.
\<close>

theorem flush_idempotent:
  "fst (flush (snd (flush s))) = [] \<and> snd (flush (snd (flush s))) = snd (flush s)"
  by (simp add: flush_def)

section \<open>Facts about the coordinator\<close>

lemma promptText_buffer:
  "inputBuffer d' = inputBuffer d \<Longrightarrow> promptText columns d' = promptText columns d"
  by (simp add: promptText_def promptPrefix_def getVisibleInput_def cong: option.case_cong)

lemma promptText_upd [simp]:
  "promptText c (spinnerTimer_update f1 d) = promptText c d"
  "promptText c (dynamicLineCount_update f2 d) = promptText c d"
  "promptText c (streamingCol_update f3 d) = promptText c d"
  "promptText c (streamingActive_update f4 d) = promptText c d"
  "promptText c (promptVisible_update f4 d) = promptText c d"
  "promptText c (spinnerFrame_update f3 d) = promptText c d"
  "promptText c (escapeSeq_update f3 d) = promptText c d"
  "promptText c (messageQueue_update f5 d) = promptText c d"
  "promptText c (processing_update f4 d) = promptText c d"
  "promptText c (running_update f4 d) = promptText c d"
  "promptText c (screen_update f6 d) = promptText c d"
  by (rule promptText_buffer, simp)+

lemma spinnerText_upd [simp]:
  "spinnerText (spinnerTimer_update f1 d) = spinnerText d"
  "spinnerText (dynamicLineCount_update f2 d) = spinnerText d"
  "spinnerText (streamingCol_update f3 d) = spinnerText d"
  "spinnerText (streamingActive_update f4 d) = spinnerText d"
  "spinnerText (promptVisible_update f4 d) = spinnerText d"
  "spinnerText (inputBuffer_update f7 d) = spinnerText d"
  "spinnerText (escapeSeq_update f3 d) = spinnerText d"
  "spinnerText (messageQueue_update f5 d) = spinnerText d"
  "spinnerText (processing_update f4 d) = spinnerText d"
  "spinnerText (running_update f4 d) = spinnerText d"
  "spinnerText (screen_update f6 d) = spinnerText d"
  by (simp_all add: spinnerText_def)

lemma eraseDynamic_eq:
  "eraseDynamic d = d\<lparr>dynamicLineCount := 0,
     screen := screen d @ (if 0 < dynamicLineCount d then eraseLines (dynamicLineCount d) else [])\<rparr>"
  by (simp add: eraseDynamic_def emit_def)

lemma drawSpinnerAndPrompt_eq:
  "drawSpinnerAndPrompt c d = d\<lparr>dynamicLineCount := 2,
     screen := screen d @ [SpinnerLine (spinnerText d), PromptLine (promptText c d)]\<rparr>"
  by (simp add: drawSpinnerAndPrompt_def emit_def)

lemma redrawPrompt_eq:
  "redrawPrompt c d = d\<lparr>dynamicLineCount := (if spinnerTimer d then 2 else 1),
     promptVisible := (if spinnerTimer d then promptVisible d else True),
     screen := screen d
       @ (if 0 < dynamicLineCount d then eraseLines (dynamicLineCount d) else [])
       @ (if spinnerTimer d then [SpinnerLine (spinnerText d), PromptLine (promptText c d)]
          else (if streamingActive d \<and> dynamicLineCount d = 0 then [Newline] else [])
               @ [PromptLine (promptText c d)])\<rparr>"
  by (simp add: redrawPrompt_def Let_def eraseDynamic_eq drawSpinnerAndPrompt_eq emit_def)

lemma writePermanent_eq:
  "writePermanent c text d = d\<lparr>
     dynamicLineCount := (if spinnerTimer d then 2 else if promptVisible d then 1 else 0),
     streamingCol := (if streamingActive d then 0 else streamingCol d),
     streamingActive := False,
     screen := screen d
       @ (if 0 < dynamicLineCount d then eraseLines (dynamicLineCount d) else [])
       @ (if streamingActive d \<and> dynamicLineCount d = 0 then [Newline] else [])
       @ [PermanentText (text @ [c_nl])]
       @ (if spinnerTimer d then [SpinnerLine (spinnerText d), PromptLine (promptText c d)]
          else if promptVisible d then [PromptLine (promptText c d)] else [])\<rparr>"
  by (simp add: writePermanent_def Let_def eraseDynamic_eq drawSpinnerAndPrompt_eq
      redrawPrompt_eq emit_def)

lemma writeStreaming_eq:
  "writeStreaming c text d = d\<lparr>
     dynamicLineCount := (if spinnerTimer d then 2 else 1),
     streamingCol := col_loop (term_cols c) text 0 (streamingCol d),
     streamingActive := True,
     promptVisible := (if spinnerTimer d then promptVisible d else True),
     screen := screen d
       @ (if 0 < dynamicLineCount d then
            eraseLines (dynamicLineCount d)
            @ (if streamingActive d then
                 CursorUp # (if 0 < streamingCol d then [CursorRight (streamingCol d)] else [])
               else [])
          else [])
       @ [StreamText text]
       @ (if spinnerTimer d then [SpinnerLine (spinnerText d), PromptLine (promptText c d)]
          else [Newline, PromptLine (promptText c d)])\<rparr>"
  by (simp add: writeStreaming_def Let_def eraseDynamic_eq updateStreamingCol_def
      redrawPrompt_eq emit_def)

lemma clearSpinner_eq:
  "clearSpinner c d = d\<lparr>spinnerTimer := False, dynamicLineCount := 1, promptVisible := True,
     screen := screen d
       @ (if 0 < dynamicLineCount d then eraseLines (dynamicLineCount d) else [])
       @ (if streamingActive d then [Newline] else [])
       @ [PromptLine (promptText c d)]\<rparr>"
  by (simp add: clearSpinner_def stopSpinner_def eraseDynamic_eq redrawPrompt_eq)

lemma startSpinner_eq:
  "startSpinner c d = d\<lparr>spinnerTimer := True, dynamicLineCount := 2, streamingCol := 0,
     spinnerFrame := 0,
     screen := screen d
       @ (if 0 < dynamicLineCount d then eraseLines (dynamicLineCount d) else [])
       @ [SpinnerLine (spinnerText (d\<lparr>spinnerFrame := 0\<rparr>)), PromptLine (promptText c d)]\<rparr>"
  by (simp add: startSpinner_def eraseDynamic_eq drawSpinnerAndPrompt_eq)

lemma spinnerTick_eq:
  "spinnerTick c d = d\<lparr>dynamicLineCount := 2,
     spinnerFrame := (spinnerFrame d + 1) mod length SPINNER_FRAMES,
     screen := screen d @ eraseLines (dynamicLineCount d)
       @ [SpinnerLine (spinnerText (d\<lparr>spinnerFrame := (spinnerFrame d + 1) mod length SPINNER_FRAMES\<rparr>)),
          PromptLine (promptText c d)]\<rparr>"
  by (simp add: spinnerTick_def Let_def drawSpinnerAndPrompt_eq emit_def)

lemma shutdown_eq:
  "running d \<Longrightarrow> shutdown d = d\<lparr>spinnerTimer := False, dynamicLineCount := 0,
     promptVisible := False, running := False,
     screen := screen d
       @ (if 0 < dynamicLineCount d then eraseLines (dynamicLineCount d) else [])
       @ [DirectText ([c_nl] @ ustr ''  '' @ DIM @ ustr ''Shutting down...'' @ RESET @ [c_nl])]\<rparr>"
  by (simp add: shutdown_def Let_def stopSpinner_def eraseDynamic_eq emit_def)

lemma region_append:
  "region r (xs @ ys) = (case region r xs of None \<Rightarrow> None | Some r' \<Rightarrow> region r' ys)"
  by (induction xs arbitrary: r) (auto split: option.splits)

lemma region_erase_from:
  "i \<le> n \<Longrightarrow>
   region (n - i, False)
     (concat (map (\<lambda>i. ClearLine # (if i + 1 < n then [CursorUp] else [])) [i..<n])) =
   Some (0, False)"
proof (induction "n - i" arbitrary: i)
  case 0
  then show ?case by simp
next
  case (Suc k)
  then have lt: "i < n" and k: "k = n - Suc i" and le: "Suc i \<le> n" by auto
  have e: "[i..<n] = i # [Suc i..<n]" using lt by (rule upt_conv_Cons)
  have m: "n - i = Suc (n - Suc i)" using lt by simp
  show ?case
  proof (cases "Suc i < n")
    case True
    then have "0 < n - Suc i" by simp
    with Suc(1) [OF k le] True show ?thesis unfolding e m by simp
  next
    case False
    with lt have "Suc i = n" by simp
    then show ?thesis unfolding e m by simp
  qed
qed

lemma region_eraseLines: "region (n, False) (eraseLines n) = Some (0, False)"
  using region_erase_from [of 0 n] by (simp add: eraseLines_def region_append)

lemma sym_redrawPrompt: "erase_symmetric d \<Longrightarrow> erase_symmetric (redrawPrompt c d)"
  by (simp add: erase_symmetric_def redrawPrompt_eq region_append region_eraseLines)

lemma sym_writePermanent: "erase_symmetric d \<Longrightarrow> erase_symmetric (writePermanent c t d)"
  by (simp add: erase_symmetric_def writePermanent_eq region_append region_eraseLines)

lemma sym_writeStreaming: "erase_symmetric d \<Longrightarrow> erase_symmetric (writeStreaming c t d)"
  by (simp add: erase_symmetric_def writeStreaming_eq region_append region_eraseLines)

lemma sym_clearSpinner: "erase_symmetric d \<Longrightarrow> erase_symmetric (clearSpinner c d)"
  by (simp add: erase_symmetric_def clearSpinner_eq region_append region_eraseLines)

lemma sym_startSpinner: "erase_symmetric d \<Longrightarrow> erase_symmetric (startSpinner c d)"
  by (simp add: erase_symmetric_def startSpinner_eq region_append region_eraseLines)

lemma sym_spinnerTick: "erase_symmetric d \<Longrightarrow> erase_symmetric (spinnerTick c d)"
  by (simp add: erase_symmetric_def spinnerTick_eq region_append region_eraseLines)

lemma sym_shutdown:
  assumes "erase_symmetric d"
  shows "erase_symmetric (shutdown d)"
proof (cases "running d")
  case True
  with assms show ?thesis
    by (simp add: erase_symmetric_def shutdown_eq region_append region_eraseLines)
next
  case False
  with assms show ?thesis by (simp add: shutdown_def)
qed

lemma sym_upd [simp]:
  "erase_symmetric (inputBuffer_update f1 d) = erase_symmetric d"
  "erase_symmetric (escapeSeq_update f2 d) = erase_symmetric d"
  "erase_symmetric (messageQueue_update f3 d) = erase_symmetric d"
  "erase_symmetric (processing_update f4 d) = erase_symmetric d"
  "erase_symmetric (streamingActive_update f4 d) = erase_symmetric d"
  "erase_symmetric (streamingCol_update f2 d) = erase_symmetric d"
  by (simp_all add: erase_symmetric_def)

lemma sym_handleChar: "erase_symmetric d \<Longrightarrow> erase_symmetric (handleChar c ch d)"
  unfolding handleChar_def Let_def
  by (simp add: sym_redrawPrompt sym_writePermanent sym_shutdown)


lemma sym_handle: "erase_symmetric d \<Longrightarrow> erase_symmetric (handle c e d)"
  by (cases e)
     (simp_all add: handle_def sym_redrawPrompt sym_writePermanent sym_writeStreaming
        sym_clearSpinner sym_startSpinner sym_spinnerTick sym_handleChar)

lemma sym_run: "erase_symmetric d \<Longrightarrow> erase_symmetric (run c es d)"
  unfolding run_def by (induction es arbitrary: d) (simp_all add: sym_handle)

text \<open>
  Claim C2 (erase symmetry). For every sequence of \<open>startSpinner\<close>, \<open>clearSpinner\<close>,
  \<open>writeStreaming\<close> and \<open>writePermanent\<close> calls (and of spinner ticks, keystrokes and
  batch boundaries) from the initial state, the screen log is erase-symmetric: every
  erase clears as many lines as the redraw before it wrote, one for a prompt alone and
  two for spinner and prompt, every redraw and every other write start on a fully erased
  region, and \<open>dynamicLineCount\<close> is the number of lines the last redraw left.
\<close>

theorem erase_symmetry: "erase_symmetric (run columns es initial_display)"
  by (rule sym_run) (simp add: erase_symmetric_def initial_display_def)


section \<open>Permanent output and the streaming column\<close>

text \<open>
  Claim C7, as amended (\<open>writePermanent\<close>). Whenever \<open>writePermanent(text)\<close> is
  called it first erases the dynamic region, if one is shown; if the coordinator is
  streaming and no dynamic region was shown it emits a newline to separate the streamed
  content from the permanent line, and if a dynamic region was erased it emits none, the
  cursor being on the erased prompt's own line already; it then writes the text followed
  by a newline and redraws the dynamic content that was active before the call: spinner
  and prompt while the spinner runs, else the prompt alone if a prompt was visible. The
  coordinator has left the streaming state afterwards.
\<close>

theorem writePermanent_writes:
  "screen (writePermanent columns t d) =
     screen d
     @ (if 0 < dynamicLineCount d then eraseLines (dynamicLineCount d) else [])
     @ (if streamingActive d \<and> dynamicLineCount d = 0 then [Newline] else [])
     @ [PermanentText (t @ [c_nl])]
     @ (if spinnerTimer d then
          [SpinnerLine (spinnerText d), PromptLine (promptText columns d)]
        else if promptVisible d then [PromptLine (promptText columns d)]
        else [])
   \<and> \<not> streamingActive (writePermanent columns t d)
   \<and> spinnerTimer (writePermanent columns t d) = spinnerTimer d
   \<and> promptVisible (writePermanent columns t d) = promptVisible d"
  by (simp add: writePermanent_eq)

lemma streaming_x:
  "writeStreaming 80 (ustr ''x'') initial_display =
     initial_display\<lparr>dynamicLineCount := 1, streamingCol := 1, streamingActive := True,
       promptVisible := True,
       screen := [StreamText (ustr ''x''), Newline,
                  PromptLine (ustr ''  '' @ BRIGHT_MAGENTA @ ustr ''>'' @ RESET @ ustr '' '')]\<rparr>"
  by (simp add: writeStreaming_eq initial_display_def col_loop.simps term_cols_def
      promptText_def promptPrefix_def getVisibleInput_def lastIndexOf_def ustr_def char_defs)

text \<open>
  The claim as first stated asks for the newline in every streaming state. After
  \<open>writeStreaming("x")\<close> from the initial state the coordinator is streaming with the
  prompt on a line of its own, and \<open>writePermanent("y")\<close> writes no newline between the
  erase and the text.
\<close>

theorem writePermanent_streaming_counterexample:
  "streamingActive (writeStreaming 80 (ustr ''x'') initial_display)
   \<and> screen (writePermanent 80 (ustr ''y'') (writeStreaming 80 (ustr ''x'') initial_display)) =
       screen (writeStreaming 80 (ustr ''x'') initial_display)
       @ [ClearLine, CarriageReturn, PermanentText (ustr ''y'' @ [c_nl]),
          PromptLine (ustr ''  '' @ BRIGHT_MAGENTA @ ustr ''>'' @ RESET @ ustr '' '')]"
  unfolding streaming_x
  by (simp add: writePermanent_eq initial_display_def eraseLines_def
      promptText_def promptPrefix_def getVisibleInput_def lastIndexOf_def term_cols_def)




lemma cols_ok_upd [simp]:
  "cols_ok c (inputBuffer_update f1 d) = cols_ok c d"
  "cols_ok c (escapeSeq_update f2 d) = cols_ok c d"
  "cols_ok c (messageQueue_update f3 d) = cols_ok c d"
  "cols_ok c (processing_update f4 d) = cols_ok c d"
  "cols_ok c (streamingActive_update f4 d) = cols_ok c d"
  by (simp_all add: cols_ok_def)










text \<open>A run at one terminal width is a run in which every event reads that width.\<close>

lemma run_fixed_width: "run_resized (map (\<lambda>e. (columns, e)) es) d = run columns es d"
  unfolding run_def run_resized_def by (induction es arbitrary: d) simp_all







section \<open>The line wrapper on the example\<close>

lemma sample_text_eq:
  "sample_text = [104, 101, 108, 108, 111, 27, 91, 49, 109, 119, 111, 114, 108, 100, 27, 91, 48, 109, 33]"
  by (simp add: sample_text_def style_defs char_defs)

text \<open>
  Claim C6, as amended (column tracking). On a terminal of at least 24 columns, wrapping
  \<open>"hello\x1b[1mworld\x1b[0m!"\<close> from column \<open>width - 3\<close> copies both escape
  sequences through without advancing the column, inserts exactly one wrap break
  (newline plus the 16-space indent), after the three characters that bring the column
  to the width, and ends at column 16 + 8: the eight visible characters after the break
  each advanced the column by one.
\<close>

theorem wrap_sample:
  assumes "24 \<le> term_cols columns"
  shows "wrapAssistantText columns sample_text (int (term_cols columns) - 3) =
           (ustr ''hel'' @ [c_nl] @ ASSISTANT_INDENT @ ustr ''lo'' @ BOLD @ ustr ''world''
              @ RESET @ ustr ''!'',
            int (length ASSISTANT_INDENT) + 8)"
proof -
  define cols where "cols = int (term_cols columns)"
  have c: "24 \<le> cols" using assms by (simp add: cols_def)
  have "wrap_loop cols sample_text 0 (cols - 3) [] =
          (ustr ''hel'' @ [c_nl] @ ASSISTANT_INDENT @ ustr ''lo'' @ BOLD @ ustr ''world''
              @ RESET @ ustr ''!'', 24)"
    unfolding sample_text_eq using c
    by (simp add: wrap_loop.simps Let_def is_param_def char_defs style_defs ASSISTANT_INDENT_def)
  then show ?thesis
    by (simp add: wrapAssistantText_def cols_def ASSISTANT_INDENT_def)
qed

theorem wrap_sample_witness:
  "wrapAssistantText 80 sample_text 77 =
           (ustr ''hel'' @ [c_nl] @ ASSISTANT_INDENT @ ustr ''lo'' @ BOLD @ ustr ''world''
              @ RESET @ ustr ''!'', 24)"
  using wrap_sample [of 80] by (simp add: term_cols_def ASSISTANT_INDENT_def)

text \<open>
  The claim as first stated holds for no width below 24: the continuation indent is 16
  columns wide and eight visible characters follow the first break. On a 20-column
  terminal the same call inserts two wrap breaks.
\<close>

theorem wrap_sample_counterexample:
  "wrapAssistantText 20 sample_text (20 - 3) =
           (ustr ''hel'' @ [c_nl] @ ASSISTANT_INDENT @ ustr ''lo'' @ BOLD @ ustr ''wo''
              @ [c_nl] @ ASSISTANT_INDENT @ ustr ''rld'' @ RESET @ ustr ''!'', 20)"
  unfolding sample_text_eq
  by (simp add: wrapAssistantText_def term_cols_def wrap_loop.simps Let_def is_param_def char_defs style_defs ASSISTANT_INDENT_def)

section \<open>The editor on the continuation example\<close>

lemma redrawPrompt_fields [simp]:
  "inputBuffer (redrawPrompt c d) = inputBuffer d"
  "escapeSeq (redrawPrompt c d) = escapeSeq d"
  "messageQueue (redrawPrompt c d) = messageQueue d"
  "processing (redrawPrompt c d) = processing d"
  "running (redrawPrompt c d) = running d"
  by (simp_all add: redrawPrompt_eq)

lemma writePermanent_fields [simp]:
  "inputBuffer (writePermanent c t d) = inputBuffer d"
  "escapeSeq (writePermanent c t d) = escapeSeq d"
  "messageQueue (writePermanent c t d) = messageQueue d"
  "processing (writePermanent c t d) = processing d"
  "running (writePermanent c t d) = running d"
  by (simp_all add: writePermanent_eq)

lemma redrawPrompt_last: "last (screen (redrawPrompt c d)) = PromptLine (promptText c d)"
  by (simp add: redrawPrompt_eq)

lemma key_printable:
  assumes "escapeSeq d = 0" and "32 \<le> k" and "k \<noteq> 127"
  shows "handleChar c [k] d = redrawPrompt c (d\<lparr>inputBuffer := inputBuffer d @ [k]\<rparr>)"
  using assms by (simp add: handleChar_def Let_def char_defs)

lemma key_enter_continue:
  assumes "escapeSeq d = 0" and "e = [c_cr] \<or> e = [c_nl]"
    and "inputBuffer d = b @ [c_backslash]"
  shows "handleChar c e d = redrawPrompt c (d\<lparr>inputBuffer := b @ [c_nl]\<rparr>)"
  using assms by (auto simp: handleChar_def Let_def char_defs)

lemma key_enter_submit:
  assumes "escapeSeq d = 0" and "e = [c_cr] \<or> e = [c_nl]"
    and "inputBuffer d \<noteq> []" and "last (inputBuffer d) \<noteq> c_backslash"
    and "trim (inputBuffer d) \<noteq> []"
  shows "messageQueue (handleChar c e d) = messageQueue d @ [trim (inputBuffer d)]
       \<and> inputBuffer (handleChar c e d) = []"
  using assms by (auto simp: handleChar_def Let_def char_defs)

lemma continuation_prompt:
  "promptText c (d\<lparr>inputBuffer := b @ [c_nl]\<rparr>) =
     ustr ''  '' @ DIM @ ustr ''..'' @ RESET @ ustr '' ''"
  by (simp add: promptText_def promptPrefix_def getVisibleInput_def lastIndexOf_def)

text \<open>
  Claim C8 (backslash continuation). From any running editor state with an empty buffer,
  the keystrokes \<open>a\<close>, backslash, Enter, \<open>b\<close>, Enter complete exactly one line, equal
  to \<open>"a\nb"\<close>: the first Enter completes nothing and replaces the trailing backslash by
  a newline in the buffer, and the prompt it draws carries the \<open>..\<close> continuation
  prefix; the second Enter appends \<open>"a\nb"\<close> to the queue and clears the buffer.
\<close>

theorem backslash_continuation:
  assumes "running d" and "escapeSeq d = 0" and "inputBuffer d = []"
    and "e1 = [c_cr] \<or> e1 = [c_nl]" and "e2 = [c_cr] \<or> e2 = [c_nl]"
  shows "messageQueue (run columns [Key (ustr ''a''), Key [c_backslash], Key e1] d)
           = messageQueue d
       \<and> inputBuffer (run columns [Key (ustr ''a''), Key [c_backslash], Key e1] d)
           = ustr ''a'' @ [c_nl]
       \<and> last (screen (run columns [Key (ustr ''a''), Key [c_backslash], Key e1] d))
           = PromptLine (ustr ''  '' @ DIM @ ustr ''..'' @ RESET @ ustr '' '')
       \<and> messageQueue (run columns [Key (ustr ''a''), Key [c_backslash], Key e1,
                                     Key (ustr ''b''), Key e2] d)
           = messageQueue d @ [ustr ''a'' @ [c_nl] @ ustr ''b'']
       \<and> inputBuffer (run columns [Key (ustr ''a''), Key [c_backslash], Key e1,
                                     Key (ustr ''b''), Key e2] d) = []"
proof -
  define k1 where "k1 = handleChar columns (ustr ''a'') d"
  define k2 where "k2 = handleChar columns [c_backslash] k1"
  define k3 where "k3 = handleChar columns e1 k2"
  define k4 where "k4 = handleChar columns (ustr ''b'') k3"
  define k5 where "k5 = handleChar columns e2 k4"
  have k1: "k1 = redrawPrompt columns (d\<lparr>inputBuffer := [97]\<rparr>)"
    unfolding k1_def using assms(2,3) key_printable [of d 97 columns] by (simp add: ustr_def)
  have k2: "k2 = redrawPrompt columns (k1\<lparr>inputBuffer := [97, c_backslash]\<rparr>)"
    unfolding k2_def using assms(2) key_printable [of k1 c_backslash columns]
    by (simp add: k1 c_backslash_def)
  have k3: "k3 = redrawPrompt columns (k2\<lparr>inputBuffer := [97] @ [c_nl]\<rparr>)"
    unfolding k3_def
    by (rule key_enter_continue [OF _ assms(4)]) (simp_all add: k2 k1 assms(2))
  have k4: "k4 = redrawPrompt columns (k3\<lparr>inputBuffer := [97, c_nl, 98]\<rparr>)"
    unfolding k4_def using assms(2) key_printable [of k3 98 columns]
    by (simp add: k3 k2 k1 ustr_def)
  have t: "trim [97, c_nl, 98] = [97, c_nl, 98]"
    by (simp add: trim_def is_js_space_def c_nl_def)
  have k5: "messageQueue k5 = messageQueue k4 @ [trim (inputBuffer k4)] \<and> inputBuffer k5 = []"
    unfolding k5_def
    by (rule key_enter_submit [OF _ assms(5)])
       (simp_all add: k4 k3 k2 k1 assms(2) t, simp add: char_defs)
  have rk: "running k1" "running k2" "running k3" "running k4"
    by (simp_all add: k1 k2 k3 k4 assms(1))
  have r3: "run columns [Key (ustr ''a''), Key [c_backslash], Key e1] d = k3"
    using assms(1) rk unfolding k1_def k2_def k3_def by (simp add: run_def handle_def)
  have run5: "run columns [Key (ustr ''a''), Key [c_backslash], Key e1, Key (ustr ''b''), Key e2] d
              = k5"
    using assms(1) rk unfolding k1_def k2_def k3_def k4_def k5_def
    by (simp add: run_def handle_def)
  have p3: "last (screen k3) = PromptLine (ustr ''  '' @ DIM @ ustr ''..'' @ RESET @ ustr '' '')"
    unfolding k3 redrawPrompt_last by (rule arg_cong [OF continuation_prompt])
  have b3: "inputBuffer k3 = ustr ''a'' @ [c_nl]" and q3: "messageQueue k3 = messageQueue d"
    by (simp_all add: k3 k2 k1 ustr_def)
  have q5: "messageQueue k5 = messageQueue d @ [ustr ''a'' @ [c_nl] @ ustr ''b'']"
    using k5 by (simp add: k4 k3 k2 k1 t ustr_def)
  show ?thesis
    unfolding r3 run5 using p3 b3 q3 q5 k5 by simp
qed

theorem backslash_continuation_witness:
  "messageQueue (run 80 [Key (ustr ''a''), Key [c_backslash], Key [c_cr],
                         Key (ustr ''b''), Key [c_cr]] initial_display)
     = [ustr ''a'' @ [c_nl] @ ustr ''b'']
   \<and> last (screen (run 80 [Key (ustr ''a''), Key [c_backslash], Key [c_cr]] initial_display))
     = PromptLine (ustr ''  '' @ DIM @ ustr ''..'' @ RESET @ ustr '' '')"
  using backslash_continuation [of initial_display "[c_cr]" "[c_cr]" 80]
  by (simp add: initial_display_def)

section \<open>Fenced code blocks\<close>

lemma drop_nonempty_nth:
  assumes "drop i xs = y # ys"
  shows "i < length xs" and "xs ! i = y"
proof -
  show lt: "i < length xs" using assms by (cases "i < length xs") auto
  from lt have "xs ! i = hd (drop i xs)" by (simp add: hd_drop_conv_nth)
  with assms show "xs ! i = y" by simp
qed

lemma indexOf_here: "drop i xs = c # ys \<Longrightarrow> indexOf xs c i = Some i"
  by (simp add: indexOf_def)

lemma takeWhile_run:
  "y \<noteq> t \<Longrightarrow> takeWhile (\<lambda>x. x = t) (replicate k t @ y # ys) = replicate k t"
  by (induction k) simp_all

lemma drop_add_split: "drop i xs = ys @ zs \<Longrightarrow> drop (i + length ys) xs = zs"
proof -
  assume a: "drop i xs = ys @ zs"
  have "drop (i + length ys) xs = drop (length ys) (drop i xs)" by (simp add: add.commute)
  then show ?thesis unfolding a by simp
qed

lemma matchFence_run:
  assumes "drop i input = replicate k c_backtick @ c_nl # rest"
  shows "matchFence input i = (if 3 \<le> k then k else 0)"
proof (cases k)
  case 0
  with assms have "charAt input i = Some c_nl"
    using drop_nonempty_nth [of i input c_nl rest] by (simp add: charAt_def)
  then show ?thesis using 0 by (simp add: matchFence_def char_defs)
next
  case (Suc m)
  with assms have "charAt input i = Some c_backtick"
    using drop_nonempty_nth [of i input c_backtick "replicate m c_backtick @ c_nl # rest"]
    by (simp add: charAt_def)
  moreover have "takeWhile (\<lambda>x. x = c_backtick) (drop i input) = replicate k c_backtick"
    unfolding assms by (rule takeWhile_run) (simp add: char_defs)
  ultimately show ?thesis by (simp add: matchFence_def)
qed

lemma step_open_fence:
  assumes d: "drop i input = replicate n c_backtick @ c_nl # rest" and n: "3 \<le> n"
    and s: "atLineStart s" "\<not> inCode s" "\<not> inCodeBlock s"
  shows "push_step c input i s =
           Continue (i + n + 1)
             (s\<lparr>inCodeBlock := True, codeBlockTicks := n, atLineStart := True,
                lineContent := []\<rparr>) DIM"
proof -
  have m: "matchFence input i = n" using matchFence_run [OF d] n by simp
  have "drop (i + n) input = c_nl # rest"
    using drop_add_split [OF d] by simp
  then have ix: "indexOf input c_nl (i + n) = Some (i + n)" by (rule indexOf_here)
  show ?thesis
    using s n by (simp add: push_step_def open_fence_def m ix Let_def)
qed

lemma step_close_fence:
  assumes d: "drop i input = replicate k c_backtick @ c_nl # rest" and k: "3 \<le> k"
    and s: "inCodeBlock s" "atLineStart s" "codeBlockTicks s \<le> k"
  shows "push_step c input i s =
           Continue (i + k + 1)
             (s\<lparr>inCodeBlock := False, atLineStart := True, lineContent := []\<rparr>) RESET"
proof -
  have m: "matchFence input i = k" using matchFence_run [OF d] k by simp
  have "drop (i + k) input = c_nl # rest"
    using drop_add_split [OF d] by simp
  then have ix: "indexOf input c_nl (i + k) = Some (i + k)" by (rule indexOf_here)
  show ?thesis
    using s by (simp add: push_step_def open_fence_def code_block_def m ix Let_def)
qed

lemma step_code_char:
  assumes "inCodeBlock s" and "\<not> (atLineStart s \<and> codeBlockTicks s \<le> matchFence input i)"
  shows "push_step c input i s =
           (if input ! i = c_nl then
              Continue (i + 1) (s\<lparr>atLineStart := True, lineContent := []\<rparr>) [c_nl]
            else
              Continue (i + 1)
                (s\<lparr>atLineStart := False, lineContent := lineContent s @ [input ! i]\<rparr>)
                [input ! i])"
proof -
  have "open_fence input i s = None"
    using assms(1) by (simp add: open_fence_def)
  moreover have "code_block input i s =
      Some (if input ! i = c_nl then
              Continue (i + 1) (s\<lparr>atLineStart := True, lineContent := []\<rparr>) [c_nl]
            else
              Continue (i + 1)
                (s\<lparr>atLineStart := False, lineContent := lineContent s @ [input ! i]\<rparr>)
                [input ! i])"
    using assms by (cases "atLineStart s") (simp_all add: code_block_def)
  ultimately show ?thesis by (simp add: push_step_def)
qed

lemma code_passthrough:
  assumes "inCodeBlock s" and "\<not> atLineStart s"
    and "drop i input = body @ rest" and "c_nl \<notin> set body"
  shows "push_loop c input i s out =
           push_loop c input (i + length body)
             (s\<lparr>lineContent := lineContent s @ body\<rparr>) (out @ body)"
  using assms
proof (induction body arbitrary: i s out)
  case Nil
  then show ?case by simp
next
  case (Cons x body)
  from Cons.prems(3) have lt: "i < length input" and x: "input ! i = x"
    using drop_nonempty_nth [of i input x "body @ rest"] by simp_all
  from Cons.prems(4) have xn: "x \<noteq> c_nl" and bn: "c_nl \<notin> set body" by auto
  let ?s1 = "s\<lparr>lineContent := lineContent s @ [x]\<rparr>"
  have e: "s\<lparr>atLineStart := False, lineContent := lineContent s @ [x]\<rparr> = ?s1"
    using Cons.prems(2) by (cases s) simp
  have st: "push_step c input i s = Continue (i + 1) ?s1 [x]"
    using step_code_char [of s input i c] Cons.prems(1,2) x xn e by simp
  have d1: "drop (i + 1) input = body @ rest"
    using drop_add_split [of i input "[x]" "body @ rest"] Cons.prems(3) by simp
  have "push_loop c input i s out = push_loop c input (i + 1) ?s1 (out @ [x])"
    using lt st by (subst push_loop.simps) simp
  also have "\<dots> = push_loop c input (i + 1 + length body)
             (?s1\<lparr>lineContent := lineContent ?s1 @ body\<rparr>) ((out @ [x]) @ body)"
    by (rule Cons.IH) (use Cons.prems(1,2) d1 bn in simp_all)
  finally show ?case by (simp add: add.commute)
qed

lemma push_loop_end: "length input \<le> i \<Longrightarrow> push_loop c input i s out = Inr (out, s)"
  by (subst push_loop.simps) simp

lemma fence_lines:
  assumes "3 \<le> n"
  shows "push columns new_renderer
           (replicate n c_backtick @ [c_nl] @ replicate k c_backtick @ [c_nl]) =
         Inr (DIM @ (if k < n then replicate k c_backtick @ [c_nl] else RESET),
              new_renderer\<lparr>inCodeBlock := k < n, codeBlockTicks := n\<rparr>)"
proof -
  define input where "input = replicate n c_backtick @ [c_nl] @ replicate k c_backtick @ [c_nl]"
  define s1 where "s1 = new_renderer\<lparr>inCodeBlock := True, codeBlockTicks := n\<rparr>"
  have len: "length input = n + k + 2" by (simp add: input_def)
  have d0: "drop 0 input = replicate n c_backtick @ c_nl # (replicate k c_backtick @ [c_nl])"
    by (simp add: input_def)
  have d1: "drop (n + 1) input = replicate k c_backtick @ c_nl # []"
    using drop_add_split [of 0 input "replicate n c_backtick @ [c_nl]" "replicate k c_backtick @ [c_nl]"]
    by (simp add: input_def)
  have st0: "push_step columns input 0 new_renderer = Continue (n + 1) s1 DIM"
    using step_open_fence [OF d0 assms, of new_renderer columns]
    by (simp add: new_renderer_def s1_def)
  have p0: "push_loop columns input 0 new_renderer [] = push_loop columns input (n + 1) s1 DIM"
    using st0 len by (subst push_loop.simps) simp
  have s1f: "inCodeBlock s1" "atLineStart s1" "codeBlockTicks s1 = n" "lineContent s1 = []"
    by (simp_all add: s1_def new_renderer_def)
  have fin: "\<And>i s out. n + k + 2 \<le> i \<Longrightarrow> push_loop columns input i s out = Inr (out, s)"
    using len by (simp add: push_loop_end)
  have "push_loop columns input (n + 1) s1 DIM =
          Inr (DIM @ (if k < n then replicate k c_backtick @ [c_nl] else RESET),
               new_renderer\<lparr>inCodeBlock := k < n, codeBlockTicks := n\<rparr>)"
  proof (cases "k < n")
    case False
    then have k3: "3 \<le> k" and nk: "codeBlockTicks s1 \<le> k" using assms s1f by simp_all
    have "push_step columns input (n + 1) s1 =
            Continue (n + 1 + k + 1)
              (s1\<lparr>inCodeBlock := False, atLineStart := True, lineContent := []\<rparr>) RESET"
      by (rule step_close_fence [OF d1 k3 s1f(1,2) nk])
    then have "push_loop columns input (n + 1) s1 DIM =
            push_loop columns input (n + k + 2)
              (s1\<lparr>inCodeBlock := False, atLineStart := True, lineContent := []\<rparr>) (DIM @ RESET)"
      using len by (subst push_loop.simps) (simp add: add.commute add.left_commute)
    with False show ?thesis
      by (simp add: fin s1_def new_renderer_def)
  next
    case True
    have mf: "matchFence input (n + 1) = (if 3 \<le> k then k else 0)"
      by (rule matchFence_run [OF d1])
    with True assms s1f have nc: "\<not> (atLineStart s1 \<and> codeBlockTicks s1 \<le> matchFence input (n + 1))"
      by simp
    have last_nl: "\<And>s out. inCodeBlock s \<Longrightarrow> \<not> atLineStart s \<Longrightarrow>
        push_loop columns input (n + k + 1) s out =
          Inr (out @ [c_nl], s\<lparr>atLineStart := True, lineContent := []\<rparr>)"
    proof -
      fix s :: renderer and out
      assume a: "inCodeBlock s" "\<not> atLineStart s"
      have "drop (n + 1 + length (replicate k c_backtick)) input = [c_nl]"
        by (rule drop_add_split [OF d1])
      then have "input ! (n + k + 1) = c_nl"
        using drop_nonempty_nth(2) [of "n + k + 1" input c_nl "[]"] by (simp add: add.commute add.left_commute)
      then have "push_step columns input (n + k + 1) s =
          Continue (n + k + 1 + 1) (s\<lparr>atLineStart := True, lineContent := []\<rparr>) [c_nl]"
        using step_code_char [of s input "n + k + 1" columns] a by simp
      then show "push_loop columns input (n + k + 1) s out =
          Inr (out @ [c_nl], s\<lparr>atLineStart := True, lineContent := []\<rparr>)"
        using len by (subst push_loop.simps) (simp add: fin)
    qed
    show ?thesis
    proof (cases k)
      case 0
      have "input ! (n + 1) = c_nl"
        using drop_nonempty_nth(2) [of "n + 1" input c_nl "[]"] d1 0 by simp
      then have "push_step columns input (n + 1) s1 =
          Continue (n + 1 + 1) (s1\<lparr>atLineStart := True, lineContent := []\<rparr>) [c_nl]"
        using step_code_char [OF s1f(1) nc, of columns] by simp
      then have "push_loop columns input (n + 1) s1 DIM =
           Inr (DIM @ [c_nl], s1\<lparr>atLineStart := True, lineContent := []\<rparr>)"
        using len 0 by (subst push_loop.simps) (simp add: fin)
      with True 0 show ?thesis by (simp add: s1_def new_renderer_def)
    next
      case (Suc m)
      let ?s2 = "s1\<lparr>atLineStart := False, lineContent := [c_backtick]\<rparr>"
      have x: "input ! (n + 1) = c_backtick"
        using drop_nonempty_nth(2) [of "n + 1" input c_backtick "replicate m c_backtick @ [c_nl]"]
          d1 Suc by simp
      then have "push_step columns input (n + 1) s1 = Continue (n + 1 + 1) ?s2 [c_backtick]"
        using step_code_char [OF s1f(1) nc, of columns] s1f(4) by (simp add: char_defs)
      then have a: "push_loop columns input (n + 1) s1 DIM =
           push_loop columns input (n + 2) ?s2 (DIM @ [c_backtick])"
        using len by (subst push_loop.simps) simp
      have d2: "drop (n + 2) input = replicate m c_backtick @ [c_nl]"
        using drop_add_split [of "n + 1" input "[c_backtick]" "replicate m c_backtick @ [c_nl]"]
          d1 Suc by simp
      have b: "push_loop columns input (n + 2) ?s2 (DIM @ [c_backtick]) =
           push_loop columns input (n + 2 + length (replicate m c_backtick))
             (?s2\<lparr>lineContent := lineContent ?s2 @ replicate m c_backtick\<rparr>)
             ((DIM @ [c_backtick]) @ replicate m c_backtick)"
        by (rule code_passthrough [OF _ _ d2]) (simp_all add: s1f char_defs)
      have c: "n + 2 + length (replicate m c_backtick) = n + k + 1" using Suc by simp
      show ?thesis
        unfolding a b c using True Suc
        by (subst last_nl) (simp_all add: s1f s1_def new_renderer_def replicate_append_same)
    qed
  qed
  with p0 show ?thesis
    by (simp add: push_def input_def new_renderer_def)
qed

lemma fence_step:
  assumes "inCodeBlock s" and "i < length input"
  shows "(case push_step columns input i s of
            Continue i' s' out' \<Rightarrow>
              inCodeBlock s' = (\<not> (atLineStart s \<and> codeBlockTicks s \<le> matchFence input i))
          | Break s' \<Rightarrow> False
          | Throw \<Rightarrow> False)"
proof (cases "atLineStart s \<and> codeBlockTicks s \<le> matchFence input i")
  case True
  have "open_fence input i s = None"
    using assms(1) by (simp add: open_fence_def)
  with True assms(1) show ?thesis
    by (simp add: push_step_def code_block_def Let_def)
next
  case False
  with step_code_char [OF assms(1) False, of columns] assms(1) show ?thesis by simp
qed

text \<open>
  Claim C4 (fence matching). A fenced block opened at line start by a run of \<open>n\<close>
  backticks, \<open>n\<close> at least 3, is closed by a following line-start run of \<open>k\<close>
  backticks exactly when \<open>k\<close> is at least \<open>n\<close>: a shorter run is passed through as
  code and the block stays open, a run of at least \<open>n\<close> emits the reset code and
  leaves the block. For \<open>n = 4\<close>: three backticks do not close, four or more do. And
  at every position inside a fenced block, one step of the renderer leaves the block only
  at line start and only if the fence run there is at least as long as the opening run;
  everywhere else the block stays open.
\<close>

theorem fence_matching:
  assumes "3 \<le> n" and "inCodeBlock s" and "i < length input"
  shows "push columns new_renderer
           (replicate n c_backtick @ [c_nl] @ replicate k c_backtick @ [c_nl]) =
         Inr (DIM @ (if k < n then replicate k c_backtick @ [c_nl] else RESET),
              new_renderer\<lparr>inCodeBlock := k < n, codeBlockTicks := n\<rparr>)
       \<and> (case push_step columns input i s of
            Continue i' s' out' \<Rightarrow>
              inCodeBlock s' = (\<not> (atLineStart s \<and> codeBlockTicks s \<le> matchFence input i))
          | Break s' \<Rightarrow> False
          | Throw \<Rightarrow> False)"
  using fence_lines [OF assms(1)] fence_step [OF assms(2,3)] by simp

theorem fence_matching_witness:
  "push 80 new_renderer (ustr ''````'' @ [c_nl] @ ustr ''```'' @ [c_nl]) =
     Inr (DIM @ ustr ''```'' @ [c_nl], new_renderer\<lparr>inCodeBlock := True, codeBlockTicks := 4\<rparr>)
   \<and> push 80 new_renderer (ustr ''````'' @ [c_nl] @ ustr ''````'' @ [c_nl]) =
     Inr (DIM @ RESET, new_renderer\<lparr>inCodeBlock := False, codeBlockTicks := 4\<rparr>)"
proof -
  let ?s = "new_renderer\<lparr>inCodeBlock := True, codeBlockTicks := 4\<rparr>"
  have h: "(3::nat) \<le> 4" "inCodeBlock ?s" "0 < length (ustr ''```'')"
    by (simp_all add: ustr_def)
  from fence_matching [OF h, of 80 3] fence_matching [OF h, of 80 4] show ?thesis
    by (simp add: ustr_def c_backtick_def numeral_eq_Suc)
qed

section \<open>The pending buffer\<close>

lemma find_first_None: "find_first c xs = None \<longleftrightarrow> c \<notin> set xs"
  by (induction xs) auto

lemma indexOf_None: "indexOf s c from = None \<longleftrightarrow> c \<notin> set (drop from s)"
  by (simp add: indexOf_def find_first_None)

lemma set_drop_split:
  "set (drop i xs) = set (take k (drop i xs)) \<union> set (drop (i + k) xs)"
proof -
  have "drop i xs = take k (drop i xs) @ drop k (drop i xs)"
    by (rule append_take_drop_id [symmetric])
  then have "set (drop i xs) = set (take k (drop i xs)) \<union> set (drop k (drop i xs))"
    by (metis set_append)
  then show ?thesis by (simp add: add.commute)
qed

lemma notin_drop:
  "c \<notin> set (take k (drop i xs)) \<Longrightarrow> c \<notin> set (drop (i + k) xs) \<Longrightarrow> c \<notin> set (drop i xs)"
  using set_drop_split [of i xs k] by blast

lemma drop_head: "i < length xs \<Longrightarrow> xs ! i = y \<Longrightarrow> drop i xs = y # drop (Suc i) xs"
  using Cons_nth_drop_Suc [of i xs] by simp

lemma take_run: "take (length (takeWhile P xs)) xs = takeWhile P xs"
  by (induction xs) auto

lemma break_open_fence:
  assumes "open_fence input i s = Some (Break s')" and "i < length input"
  shows "pending_shape (pending s')"
proof -
  from assms obtain ch where ch: "charAt input i = Some ch" "ch = c_backtick \<or> ch = c_tilde"
    and p: "pending s' = drop i input"
    and nl: "indexOf input c_nl (i + matchFence input i) = None"
    and m: "matchFence input i = length (takeWhile (\<lambda>x. x = ch) (drop i input))"
    by (auto simp: open_fence_def matchFence_def Let_def split: if_splits option.splits)
  from ch(1) assms(2) have hd: "drop i input = ch # drop (Suc i) input"
    by (intro drop_head) (simp_all add: charAt_def)
  have "set (take (matchFence input i) (drop i input)) \<subseteq> {ch}"
    unfolding m take_run by (auto dest: set_takeWhileD)
  moreover have "ch \<noteq> c_nl" using ch(2) by (auto simp: char_defs)
  ultimately have a: "c_nl \<notin> set (take (matchFence input i) (drop i input))" by blast
  have b: "c_nl \<notin> set (drop (i + matchFence input i) input)"
    using nl by (simp add: indexOf_None)
  have "c_nl \<notin> set (drop i input)" by (rule notin_drop [OF a b])
  with ch(2) hd show ?thesis
    unfolding p pending_shape_def by (auto simp: char_defs)
qed

lemma break_header:
  assumes "header input i s = Some (Break s')" and "i < length input"
  shows "pending_shape (pending s')"
proof -
  define k where "k = length (takeWhile (\<lambda>x. x = c_hash) (drop i input))"
  from assms have p: "pending s' = drop i input" and h: "input ! i = c_hash"
    and c: "length input \<le> i + k \<or>
            (i + k < length input \<and> input ! (i + k) = c_space
             \<and> indexOf input c_nl (i + k + 1) = None)"
    by (auto simp: header_def Let_def k_def split: if_splits option.splits)
  from h assms(2) have hd: "drop i input = c_hash # drop (Suc i) input"
    by (intro drop_head)
  have "set (take k (drop i input)) \<subseteq> {c_hash}"
    unfolding k_def take_run by (auto dest: set_takeWhileD)
  then have run: "c_nl \<notin> set (take k (drop i input))" by (auto simp: char_defs)
  have "c_nl \<notin> set (drop (i + k) input)"
  proof (rule disjE [OF c])
    assume "length input \<le> i + k"
    then show ?thesis by simp
  next
    assume a: "i + k < length input \<and> input ! (i + k) = c_space
             \<and> indexOf input c_nl (i + k + 1) = None"
    then have e: "drop (i + k) input = c_space # drop (i + k + 1) input"
      using drop_head [of "i + k" input c_space] by simp
    from a have "c_nl \<notin> set (drop (i + k + 1) input)" by (simp add: indexOf_None)
    then show ?thesis unfolding e by (simp add: char_defs)
  qed
  with run have "c_nl \<notin> set (drop i input)" by (rule notin_drop)
  with hd show ?thesis
    unfolding p pending_shape_def by (simp add: char_defs)
qed

lemma hr_scan_to_end:
  "hr_scan rc xs j count = (j', count', r) \<Longrightarrow> j + length xs \<le> j' \<Longrightarrow> c_nl \<notin> set xs"
proof (induction xs arbitrary: j count)
  case Nil
  then show ?case by simp
next
  case (Cons x xs)
  show ?case
  proof (cases "x = c_nl \<or> (x \<noteq> rc \<and> x \<noteq> c_space)")
    case True
    with Cons.prems have "j' = j" by (auto split: if_splits)
    with Cons.prems(2) show ?thesis by simp
  next
    case False
    then obtain count1 where "hr_scan rc xs (j + 1) count1 = (j', count', r)"
      using Cons.prems(1) by (auto split: if_splits)
    from Cons.IH [OF this] Cons.prems(2) False show ?thesis by simp
  qed
qed

lemma break_hrule:
  assumes "hrule columns input i s = Some (Break s')" and "i < length input"
  shows "pending_shape (pending s')"
proof -
  obtain j count isRule where sc: "hr_scan (input ! i) (drop i input) i 0 = (j, count, isRule)"
    by (cases "hr_scan (input ! i) (drop i input) i 0") auto
  from assms sc have p: "pending s' = drop i input"
    and h: "input ! i = c_dash \<or> input ! i = c_star \<or> input ! i = c_underscore"
    and j: "length input \<le> j"
    by (auto simp: hrule_def Let_def split: if_splits)
  from assms(2) have hd: "drop i input = input ! i # drop (Suc i) input"
    by (intro drop_head) simp_all
  have "c_nl \<notin> set (drop i input)"
    by (rule hr_scan_to_end [OF sc]) (use j assms(2) in simp)
  with h show ?thesis
    unfolding p pending_shape_def by (subst hd, subst (asm) hd) (auto simp: char_defs)
qed

lemma break_italic:
  assumes "italic_toggle input i s = Some (Break s')"
  shows "pending_shape (pending s')"
  using assms
  by (auto simp: italic_toggle_def Let_def pending_shape_def char_defs split: if_splits)

lemma break_link:
  assumes "link input i s = Some (Break s')" and "i < length input"
  shows "pending_shape (pending s')"
proof -
  from assms have p: "pending s' = drop i input" and h: "input ! i = c_lbracket"
    and c: "length input - i < 500"
       "indexOf input c_rbracket (i + 1) = None \<longrightarrow> length input - i < 200"
    by (auto simp: link_def Let_def split: if_splits option.splits)
  from assms(2) h have hd: "drop i input = c_lbracket # drop (i + 1) input"
    using drop_head [of i input c_lbracket] by simp
  from c have "c_rbracket \<in> set (drop (i + 1) input) \<or> length input - i < 200"
    by (auto simp: indexOf_None)
  with c(1) show ?thesis
    unfolding p pending_shape_def by (subst hd, subst hd) (simp add: hd [symmetric])
qed


lemma continue_keeps_pending:
  assumes "push_step columns input i s = Continue i' s' out'"
  shows "pending s' = pending s"
proof -
  have a1: "open_fence input i s = Some (Continue i' s' out') \<Longrightarrow> ?thesis"
    by (auto simp: open_fence_def Let_def split: if_splits option.splits)
  have a2: "code_block input i s = Some (Continue i' s' out') \<Longrightarrow> ?thesis"
    by (auto simp: code_block_def Let_def split: if_splits)
  have a3: "inline_toggle input i s = Some (Continue i' s' out') \<Longrightarrow> ?thesis"
    by (auto simp: inline_toggle_def Let_def split: if_splits)
  have a4: "inline_body input i s = Some (Continue i' s' out') \<Longrightarrow> ?thesis"
    by (auto simp: inline_body_def split: if_splits)
  have a5: "header input i s = Some (Continue i' s' out') \<Longrightarrow> ?thesis"
    by (auto simp: header_def Let_def split: if_splits option.splits)
  have a6: "hrule columns input i s = Some (Continue i' s' out') \<Longrightarrow> ?thesis"
    by (auto simp: hrule_def Let_def split: if_splits prod.splits)
  have a7: "\<And>m. bullet m input i s = Some (Continue i' s' out') \<Longrightarrow> ?thesis"
    by (auto simp: bullet_def split: if_splits)
  have a8: "numbered input i s = Some (Continue i' s' out') \<Longrightarrow> ?thesis"
    by (auto simp: numbered_def Let_def split: if_splits)
  have a9: "bold_toggle input i s = Some (Continue i' s' out') \<Longrightarrow> ?thesis"
    by (auto simp: bold_toggle_def Let_def split: if_splits)
  have a10: "italic_toggle input i s = Some (Continue i' s' out') \<Longrightarrow> ?thesis"
    by (auto simp: italic_toggle_def Let_def split: if_splits)
  have a11: "link input i s = Some (Continue i' s' out') \<Longrightarrow> ?thesis"
    by (auto simp: link_def Let_def split: if_splits option.splits)
  have a12: "literal input i s = Continue i' s' out' \<Longrightarrow> ?thesis"
    by (auto simp: literal_def split: if_splits)
  from assms have
    "Some (Continue i' s' out') \<in> set
       [open_fence input i s, code_block input i s, inline_toggle input i s,
        inline_body input i s, header input i s, hrule columns input i s,
        bullet c_dash input i s, bullet c_star input i s, numbered input i s,
        bold_toggle input i s, italic_toggle input i s, link input i s]
     \<or> Continue i' s' out' = literal input i s"
    unfolding push_step_def by (rule first_of_cases)
  then show ?thesis
    using a1 a2 a3 a4 a5 a6 a7 a8 a9 a10 a11 a12 by (simp only: set_simps) fastforce
qed

lemma break_shape:
  assumes "push_step columns input i s = Break s'" and "i < length input"
  shows "pending_shape (pending s')"
proof -
  have n2: "code_block input i s \<noteq> Some (Break s')"
    by (auto simp: code_block_def Let_def split: if_splits)
  have n3: "inline_toggle input i s \<noteq> Some (Break s')"
    by (auto simp: inline_toggle_def Let_def split: if_splits)
  have n4: "inline_body input i s \<noteq> Some (Break s')"
    by (auto simp: inline_body_def split: if_splits)
  have n7: "\<And>m. bullet m input i s \<noteq> Some (Break s')"
    by (auto simp: bullet_def split: if_splits)
  have n8: "numbered input i s \<noteq> Some (Break s')"
    by (auto simp: numbered_def Let_def split: if_splits)
  have n9: "bold_toggle input i s \<noteq> Some (Break s')"
    by (auto simp: bold_toggle_def Let_def split: if_splits)
  have n12: "literal input i s \<noteq> Break s'"
    by (auto simp: literal_def split: if_splits)
  from assms(1) have
    "Some (Break s') \<in> set
       [open_fence input i s, code_block input i s, inline_toggle input i s,
        inline_body input i s, header input i s, hrule columns input i s,
        bullet c_dash input i s, bullet c_star input i s, numbered input i s,
        bold_toggle input i s, italic_toggle input i s, link input i s]
     \<or> Break s' = literal input i s"
    unfolding push_step_def by (rule first_of_cases)
  then consider "open_fence input i s = Some (Break s')" | "header input i s = Some (Break s')"
    | "hrule columns input i s = Some (Break s')" | "italic_toggle input i s = Some (Break s')"
    | "link input i s = Some (Break s')"
    using n2 n3 n4 n7 n8 n9 n12 by (simp only: set_simps) fastforce
  then show ?thesis
    using assms(2)
    by cases (auto intro: break_open_fence break_header break_hrule break_italic break_link)
qed

lemma push_loop_pending:
  assumes "push_loop columns input i s out = Inr (out1, s1)" and "pending_shape (pending s)"
  shows "pending_shape (pending s1)"
  using assms
proof (induction columns input i s out rule: push_loop.induct)
  case (1 columns input i s out)
  show ?case
  proof (cases "i < length input")
    case False
    with "1.prems" show ?thesis by (subst (asm) push_loop.simps) simp
  next
    case True
    show ?thesis
    proof (cases "push_step columns input i s")
      case (Continue i' s' out')
      with True "1.prems"(1) have "push_loop columns input i' s' (out @ out') = Inr (out1, s1)"
        by (subst (asm) push_loop.simps) simp
      moreover have "pending_shape (pending s')"
        using continue_keeps_pending [OF Continue] "1.prems"(2) by simp
      ultimately show ?thesis by (rule "1.IH" [OF True Continue])
    next
      case (Break s')
      with True "1.prems"(1) have "s1 = s'" by (subst (asm) push_loop.simps) simp
      with break_shape [OF Break True] show ?thesis by simp
    next
      case Throw
      with True "1.prems"(1) show ?thesis by (subst (asm) push_loop.simps) simp
    qed
  qed
qed

text \<open>
  Claim C3, as amended (the pending buffer). After every \<open>push\<close> call that returns,
  the pending buffer is empty, or holds an unterminated link of fewer than 500
  characters (fewer than 200 while no closing bracket has arrived), or holds the
  beginning of a line that is waiting for its newline: an opening fence line, a header
  line, a candidate rule or a lone star. The length bound is the link's only; a line that
  waits for its newline is kept whole, whatever its length.
\<close>

theorem pending_bounded_for_links:
  assumes "push columns s chunk = Inr (out, s')"
  shows "pending_shape (pending s')"
  using assms unfolding push_def
  by (rule push_loop_pending) (simp add: pending_shape_def)

lemma step_header_pending:
  assumes d: "drop i input = c_hash # c_space # rest" and nl: "c_nl \<notin> set rest"
    and s: "atLineStart s" "\<not> inCode s" "\<not> inCodeBlock s"
  shows "push_step c input i s = Break (s\<lparr>pending := drop i input\<rparr>)"
proof -
  from d have lt: "i < length input" and h: "input ! i = c_hash"
    using drop_nonempty_nth [of i input c_hash "c_space # rest"] by simp_all
  have d1: "drop (i + 1) input = c_space # rest"
    using drop_add_split [of i input "[c_hash]" "c_space # rest"] d by simp
  then have lt1: "i + 1 < length input" and sp: "input ! (i + 1) = c_space"
    using drop_nonempty_nth [of "i + 1" input c_space rest] by simp_all
  have d2: "drop (i + 2) input = rest"
    using drop_add_split [of i input "[c_hash, c_space]" rest] d by simp
  have tw: "length (takeWhile (\<lambda>x. x = c_hash) (drop i input)) = 1"
    unfolding d by (simp add: char_defs)
  have ix: "indexOf input c_nl (i + 1 + 1) = None"
    using nl d2 by (simp add: indexOf_None)
  have f: "open_fence input i s = None"
    using h lt by (simp add: open_fence_def matchFence_def charAt_def char_defs)
  have "header input i s = Some (Break (s\<lparr>pending := drop i input\<rparr>))"
    using s(1) h lt1 sp ix by (simp add: header_def tw)
  with f s show ?thesis
    by (simp add: push_step_def code_block_def inline_toggle_def inline_body_def h char_defs)
qed

text \<open>
  The claim as first stated bounds every pending buffer by about 500 characters. A header
  line of 602 characters with no newline yet is kept whole.
\<close>

theorem pending_unbounded_counterexample:
  "push 80 new_renderer (c_hash # c_space # replicate 600 (of_char CHR ''a'')) =
     Inr ([], new_renderer\<lparr>pending := c_hash # c_space # replicate 600 (of_char CHR ''a'')\<rparr>)
   \<and> length (c_hash # c_space # replicate 600 (of_char CHR ''a'') :: jsstring) = 602"
proof -
  let ?input = "c_hash # c_space # replicate 600 (of_char CHR ''a'') :: jsstring"
  have "push_step 80 ?input 0 new_renderer = Break (new_renderer\<lparr>pending := drop 0 ?input\<rparr>)"
    by (rule step_header_pending [where rest = "replicate 600 (of_char CHR ''a'')"])
       (simp_all add: new_renderer_def char_defs)
  then show ?thesis
    by (subst push_def, subst push_loop.simps) (simp add: new_renderer_def)
qed

theorem pending_bounded_for_links_witness:
  "push 80 new_renderer (ustr ''see [docs'') =
     Inr (ustr ''see '', new_renderer\<lparr>pending := ustr ''[docs'', atLineStart := False,
                                      lineContent := ustr ''see ''\<rparr>)
   \<and> pending_shape (ustr ''[docs'')"
proof -
  have p: "push 80 new_renderer (ustr ''see [docs'') =
     Inr (ustr ''see '', new_renderer\<lparr>pending := ustr ''[docs'', atLineStart := False,
                                      lineContent := ustr ''see ''\<rparr>)"
    by (simp add: push_def push_loop.simps step_defs new_renderer_def char_defs style_defs)
  from pending_bounded_for_links [OF p] p show ?thesis by simp
qed

section \<open>Chunk boundaries\<close>







subsection \<open>The loop depends on the rest of the input only\<close>























subsection \<open>Input that grows at its end\<close>


















subsection \<open>One step on a longer input\<close>



























subsection \<open>A call on a longer input\<close>









text \<open>
  A rule is drawn as soon as three rule characters end the input: pushing \<open>"---"\<close>
  then \<open>"-\n"\<close> draws the rule and then a literal dash, pushing \<open>"----\n"\<close> draws the
  rule alone. A closing fence that ends the input closes the block there: the newline
  that the next chunk brings is written, not skipped.
\<close>

lemma rule_drawn_early:
  "render_chunks 80 [ustr ''---'', ustr ''-'' @ [c_nl]] =
     Inr (DIM @ replicate 40 c_box @ RESET @ ustr ''-'' @ [c_nl])
   \<and> render_chunks 80 [concat [ustr ''---'', ustr ''-'' @ [c_nl]]] =
     Inr (DIM @ replicate 40 c_box @ RESET @ [c_nl])"
  by (simp add: render_chunks_def push_def push_loop.simps step_defs new_renderer_def
      flush_def char_defs style_defs)

lemma fence_closed_early:
  "render_chunks 80 [ustr ''```'' @ [c_nl] @ ustr ''x'' @ [c_nl] @ ustr ''```'',
                     [c_nl] @ ustr ''y''] =
     Inr (DIM @ ustr ''x'' @ [c_nl] @ RESET @ [c_nl] @ ustr ''y'')
   \<and> render_chunks 80 [concat [ustr ''```'' @ [c_nl] @ ustr ''x'' @ [c_nl] @ ustr ''```'',
                               [c_nl] @ ustr ''y'']] =
     Inr (DIM @ ustr ''x'' @ [c_nl] @ RESET @ ustr ''y'')"
  by (simp add: render_chunks_def push_def push_loop.simps step_defs new_renderer_def
      flush_def char_defs style_defs)

text \<open>
  The places the amended claim leaves open. An opening fence cut before its newline is
  read again as the fence that closes its own block; a digit cut from its dot and space
  is written as text; a label cut from its opening parenthesis is written as text.
\<close>

lemma fence_line_cut_early:
  "render_chunks 80 [ustr ''```js'', [c_nl] @ ustr ''x'' @ [c_nl] @ ustr ''```'' @ [c_nl]] =
     Inr (RESET @ ustr ''x'' @ [c_nl] @ DIM @ RESET)
   \<and> render_chunks 80
         [concat [ustr ''```js'', [c_nl] @ ustr ''x'' @ [c_nl] @ ustr ''```'' @ [c_nl]]] =
     Inr (DIM @ ustr ''x'' @ [c_nl] @ RESET)"
  by (simp add: render_chunks_def push_def push_loop.simps step_defs new_renderer_def
      flush_def char_defs style_defs)

lemma marker_cut_early:
  "render_chunks 80 [ustr ''1'', ustr ''. a''] = Inr (ustr ''1. a'')
   \<and> render_chunks 80 [concat [ustr ''1'', ustr ''. a'']] =
     Inr (DIM @ ustr ''1.'' @ RESET @ ustr '' a'')"
  by (simp add: render_chunks_def push_def push_loop.simps step_defs new_renderer_def
      flush_def char_defs style_defs)

lemma link_cut_early:
  "render_chunks 80 [ustr ''[a]'', ustr ''(u)''] = Inr (ustr ''[a](u)'')
   \<and> render_chunks 80 [concat [ustr ''[a]'', ustr ''(u)'']] =
     Inr (UNDERLINE @ ustr ''a'' @ NO_UNDERLINE @ DIM @ ustr '' (u)'' @ RESET)"
  by (simp add: render_chunks_def push_def push_loop.simps step_defs new_renderer_def
      flush_def char_defs style_defs)








end
